theory Spec2Isabelle
  imports Main
begin

section \<open>Data model\<close>

text \<open>
  The solver class \<open>Nono_Solver\<close> of \<open>Nonogram.py\<close>. A grid cell is \<open>None\<close>
  (unknown), \<open>0\<close> (empty) or \<open>1\<close> (filled): an \<open>int option\<close>. A line
  possibility is a tuple of ints, a domain is a Python set of such tuples. Python
  exceptions are values of \<open>error\<close>: an index out of range raises \<open>IndexError\<close>,
  and \<open>solve\<close>, which recurses once per branch level, raises \<open>RecursionError\<close>
  when the interpreter's frame budget is used up.
\<close>

datatype error = IndexError | RecursionError

record state =
  row_constraints :: "int list list"
  col_constraints :: "int list list"
  height :: nat
  width :: nat
  grid :: "int option list list"
  row_domains :: "int list set list"
  col_domains :: "int list set list"

section \<open>The line possibility generator\<close>

text \<open>
  \<open>line[k] = v\<close> on a Python list: an index in \<open>[0, len)\<close> is used as it is, one in
  \<open>[-len, 0)\<close> counts from the end, anything else raises \<open>IndexError\<close>.
\<close>

definition py_setitem :: "'a list \<Rightarrow> int \<Rightarrow> 'a \<Rightarrow> error + 'a list" where
  "py_setitem xs k v =
     (let n = int (length xs) in
      if 0 \<le> k \<and> k < n then Inr (xs[nat k := v])
      else if - n \<le> k \<and> k < 0 then Inr (xs[nat (n + k) := v])
      else Inl IndexError)"

text \<open>\<open>for i in range(p[1]): line[p[0] + i] = 1\<close>, the index list being \<open>range(p[1])\<close>.\<close>

fun paint_cells :: "int \<Rightarrow> nat list \<Rightarrow> int list \<Rightarrow> error + int list" where
  "paint_cells start [] line = Inr line"
| "paint_cells start (i # rest) line =
     (case py_setitem line (start + int i) 1 of
        Inl e \<Rightarrow> Inl e
      | Inr line' \<Rightarrow> paint_cells start rest line')"

text \<open>\<open>for p in pos_list: ...\<close>; \<open>range\<close> of a negative number is empty.\<close>

fun paint :: "(int \<times> int) list \<Rightarrow> int list \<Rightarrow> error + int list" where
  "paint [] line = Inr line"
| "paint (p # ps) line =
     (case paint_cells (fst p) [0..<nat (snd p)] line of
        Inl e \<Rightarrow> Inl e
      | Inr line' \<Rightarrow> paint ps line')"

text \<open>
  \<open>results.extend(...)\<close> over the iterations of the \<open>while\<close> loop: the lists are
  concatenated in order, and the first exception ends the loop.
\<close>

fun extend_all :: "(error + 'a list) list \<Rightarrow> error + 'a list" where
  "extend_all [] = Inr []"
| "extend_all (r # rs) =
     (case r of
        Inl e \<Rightarrow> Inl e
      | Inr xs \<Rightarrow> (case extend_all rs of Inl e \<Rightarrow> Inl e | Inr ys \<Rightarrow> Inr (xs @ ys)))"

text \<open>
  The nested helper \<open>generate_positions(pos, current_blocks)\<close>. The enclosing
  function's \<open>length\<close> is the parameter \<open>len\<close>; the shared stack \<open>pos_list\<close>, pushed
  before and popped after each recursive call, is passed as a parameter. The loop
  \<open>while start <= max_start: ...; start += 1\<close> visits \<open>pos, pos + 1, ..., max_start\<close>.
\<close>

fun generate_positions ::
  "nat \<Rightarrow> (int \<times> int) list \<Rightarrow> int \<Rightarrow> int list \<Rightarrow> error + int list list" where
  "generate_positions len pos_list pos [] =
     (case paint pos_list (replicate len 0) of
        Inl e \<Rightarrow> Inl e
      | Inr line \<Rightarrow> Inr [line])"
| "generate_positions len pos_list pos (block # rest) =
     (let max_start = int len - sum_list (block # rest) - (int (length (block # rest)) - 1) in
      extend_all
        (map (\<lambda>start.
                if list_all (\<lambda>p. fst p + snd p \<le> start) pos_list
                then generate_positions len (pos_list @ [(start, block)]) (start + block + 1) rest
                else Inr [])
             [pos..max_start]))"

text \<open>
  \<open>generate_line_possibilities(blocks, length)\<close>. Both call sites pass a \<open>len(...)\<close>
  as \<open>length\<close>, so it is a natural number here; block lengths are arbitrary ints.
\<close>

definition generate_line_possibilities :: "int list \<Rightarrow> nat \<Rightarrow> error + int list list" where
  "generate_line_possibilities blocks len =
     (if blocks = [] then Inr [replicate len 0]
      else
        let total_blocks = sum_list blocks;
            total_gaps = int (length blocks) - 1;
            remaining_space = int len - (total_blocks + total_gaps)
        in if remaining_space < 0 then Inr []
           else generate_positions len [] 0 blocks)"

text \<open>\<open>_generate_domains\<close>: one set of tuples per clue.\<close>

fun generate_domains :: "int list list \<Rightarrow> nat \<Rightarrow> error + int list set list" where
  "generate_domains [] len = Inr []"
| "generate_domains (blocks # rest) len =
     (case generate_line_possibilities blocks len of
        Inl e \<Rightarrow> Inl e
      | Inr ls \<Rightarrow>
          (case generate_domains rest len of
             Inl e \<Rightarrow> Inl e
           | Inr ds \<Rightarrow> Inr (set ls # ds)))"

text \<open>
  \<open>Nono_Solver.__init__\<close>, from the parsed clues (reading the file is outside the
  model).
\<close>

definition Nono_Solver :: "int list list \<Rightarrow> int list list \<Rightarrow> error + state" where
  "Nono_Solver rows cols =
     (let h = length rows; w = length cols in
      case generate_domains rows w of
        Inl e \<Rightarrow> Inl e
      | Inr rd \<Rightarrow>
          (case generate_domains cols h of
             Inl e \<Rightarrow> Inl e
           | Inr cd \<Rightarrow>
               Inr \<lparr>row_constraints = rows, col_constraints = cols, height = h, width = w,
                    grid = replicate h (replicate w None),
                    row_domains = rd, col_domains = cd\<rparr>))"

section \<open>The clue extractor of the puzzle creator\<close>

text \<open>
  \<open>NonogramCreator.extract_clues\<close> of \<open>makenonogram.py\<close>. \<open>scan_line\<close> is its loop
  together with the final \<open>if count > 0: clues.append(count)\<close>: the lengths of the
  maximal runs of cells equal to 1, left to right.
\<close>

fun scan_line :: "int list \<Rightarrow> int list \<Rightarrow> int \<Rightarrow> int list" where
  "scan_line [] clues count = (if count > 0 then clues @ [count] else clues)"
| "scan_line (cell # rest) clues count =
     (if cell = 1 then scan_line rest clues (count + 1)
      else if count > 0 then scan_line rest (clues @ [count]) 0
      else scan_line rest clues count)"

definition filled_runs :: "int list \<Rightarrow> int list" where
  "filled_runs line = scan_line line [] 0"

definition extract_clues :: "int list \<Rightarrow> int list" where
  "extract_clues line = (let clues = filled_runs line in if clues \<noteq> [] then clues else [0])"

section \<open>Constraint propagation\<close>

text \<open>
  Reading \<open>xs[i]\<close> with an index that comes from \<open>range\<close> or \<open>enumerate\<close> (never
  negative): \<open>IndexError\<close> past the end.
\<close>

definition get :: "'a list \<Rightarrow> nat \<Rightarrow> error + 'a" where
  "get xs i = (if i < length xs then Inr (xs ! i) else Inl IndexError)"

text \<open>\<open>self.grid[i][j]\<close>, read.\<close>

definition grid_get :: "int option list list \<Rightarrow> nat \<Rightarrow> nat \<Rightarrow> error + int option" where
  "grid_get g i j = (case get g i of Inl e \<Rightarrow> Inl e | Inr row \<Rightarrow> get row j)"

text \<open>
  \<open>self.grid[i][j] = v\<close>. The solver writes a cell only after it has read the same
  cell in the same grid, so the write is in range whenever it is reached.
\<close>

definition grid_set :: "int option list list \<Rightarrow> nat \<Rightarrow> nat \<Rightarrow> int option \<Rightarrow> int option list list" where
  "grid_set g i j v = g[i := (g ! i)[j := v]]"

text \<open>
  The inner loop of both filters, \<open>for k, value in enumerate(possibility)\<close>: the
  possibility is kept unless a fixed cell disagrees with it; \<open>cell k\<close> is the grid cell
  that position \<open>k\<close> of the line falls on. The loop stops at the first disagreement,
  so cells behind it are not read.
\<close>

fun valid :: "(nat \<Rightarrow> error + int option) \<Rightarrow> nat \<Rightarrow> int list \<Rightarrow> error + bool" where
  "valid cell k [] = Inr True"
| "valid cell k (v # rest) =
     (case cell k of
        Inl e \<Rightarrow> Inl e
      | Inr c \<Rightarrow> if c \<noteq> None \<and> c \<noteq> Some v then Inr False else valid cell (Suc k) rest)"

text \<open>
  \<open>new_domain\<close>: the possibilities of the domain that pass the check. The set is
  iterated in an order the model does not fix; an \<open>IndexError\<close> on any possibility
  ends the call whatever the order.
\<close>

definition filter_domain :: "(int list \<Rightarrow> error + bool) \<Rightarrow> int list set \<Rightarrow> error + int list set" where
  "filter_domain ok D =
     (if \<exists>p\<in>D. isl (ok p) then Inl IndexError else Inr {p \<in> D. ok p = Inr True})"

text \<open>
  How one pass of the body of \<open>while changed\<close> ends: \<open>return False\<close> (with the state
  as it is at that moment), or the end of the body with the flag \<open>changed\<close>.
\<close>

datatype flow = Failed state | Going bool state

text \<open>\<open>for i in range(self.height)\<close>: the row filter.\<close>

fun update_rows :: "nat list \<Rightarrow> bool \<Rightarrow> state \<Rightarrow> error + flow" where
  "update_rows [] changed s = Inr (Going changed s)"
| "update_rows (i # rest) changed s =
     (case get (row_domains s) i of
        Inl e \<Rightarrow> Inl e
      | Inr D \<Rightarrow>
          (case filter_domain (valid (\<lambda>j. grid_get (grid s) i j) 0) D of
             Inl e \<Rightarrow> Inl e
           | Inr new_domain \<Rightarrow>
               if new_domain = {} then Inr (Failed s)
               else if new_domain \<noteq> D
               then update_rows rest True (s\<lparr>row_domains := (row_domains s)[i := new_domain]\<rparr>)
               else update_rows rest changed s))"

text \<open>\<open>for j in range(self.width)\<close>: the column filter.\<close>

fun update_cols :: "nat list \<Rightarrow> bool \<Rightarrow> state \<Rightarrow> error + flow" where
  "update_cols [] changed s = Inr (Going changed s)"
| "update_cols (j # rest) changed s =
     (case get (col_domains s) j of
        Inl e \<Rightarrow> Inl e
      | Inr D \<Rightarrow>
          (case filter_domain (valid (\<lambda>i. grid_get (grid s) i j) 0) D of
             Inl e \<Rightarrow> Inl e
           | Inr new_domain \<Rightarrow>
               if new_domain = {} then Inr (Failed s)
               else if new_domain \<noteq> D
               then update_cols rest True (s\<lparr>col_domains := (col_domains s)[j := new_domain]\<rparr>)
               else update_cols rest changed s))"

text \<open>\<open>{poss[k] for poss in D}\<close>.\<close>

definition values_at :: "int list set \<Rightarrow> nat \<Rightarrow> error + int set" where
  "values_at D k = (if \<exists>p\<in>D. \<not> k < length p then Inl IndexError else Inr ((\<lambda>p. p ! k) ` D))"

text \<open>\<open>row_values & col_values\<close> for the cell \<open>(i, j)\<close>.\<close>

definition common_values :: "state \<Rightarrow> nat \<Rightarrow> nat \<Rightarrow> error + int set" where
  "common_values s i j =
     (case get (row_domains s) i of
        Inl e \<Rightarrow> Inl e
      | Inr R \<Rightarrow>
     (case values_at R j of
        Inl e \<Rightarrow> Inl e
      | Inr row_values \<Rightarrow>
     (case get (col_domains s) j of
        Inl e \<Rightarrow> Inl e
      | Inr C \<Rightarrow>
     (case values_at C i of
        Inl e \<Rightarrow> Inl e
      | Inr col_values \<Rightarrow> Inr (row_values \<inter> col_values)))))"

text \<open>
  Forced cells, \<open>for i in range(self.height): for j in range(self.width)\<close>; the list
  holds the cells in that order. On a set with one element \<open>pop()\<close> returns that
  element, which is its minimum.
\<close>

fun infer_cells :: "(nat \<times> nat) list \<Rightarrow> bool \<Rightarrow> state \<Rightarrow> error + bool \<times> state" where
  "infer_cells [] changed s = Inr (changed, s)"
| "infer_cells ((i, j) # rest) changed s =
     (case grid_get (grid s) i j of
        Inl e \<Rightarrow> Inl e
      | Inr c \<Rightarrow>
          if c = None then
            (case common_values s i j of
               Inl e \<Rightarrow> Inl e
             | Inr common \<Rightarrow>
                 if card common = 1
                 then infer_cells rest True (s\<lparr>grid := grid_set (grid s) i j (Some (Min common))\<rparr>)
                 else infer_cells rest changed s)
          else infer_cells rest changed s)"

text \<open>One pass of the body of \<open>while changed\<close>.\<close>

definition sweep :: "state \<Rightarrow> error + flow" where
  "sweep s =
     (case update_rows [0..<height s] False s of
        Inl e \<Rightarrow> Inl e
      | Inr (Failed s1) \<Rightarrow> Inr (Failed s1)
      | Inr (Going c1 s1) \<Rightarrow>
     (case update_cols [0..<width s1] c1 s1 of
        Inl e \<Rightarrow> Inl e
      | Inr (Failed s2) \<Rightarrow> Inr (Failed s2)
      | Inr (Going c2 s2) \<Rightarrow>
     (case infer_cells (List.product [0..<height s2] [0..<width s2]) c2 s2 of
        Inl e \<Rightarrow> Inl e
      | Inr (c3, s3) \<Rightarrow> Inr (Going c3 s3))))"

text \<open>
  \<open>_update_domains\<close>: the passes are repeated while one reports a change. That the
  loop ends on every state is proved below, after the lemmas it needs.
\<close>

function update_domains :: "state \<Rightarrow> error + bool \<times> state" where
  "update_domains s =
     (case sweep s of
        Inl e \<Rightarrow> Inl e
      | Inr (Failed s') \<Rightarrow> Inr (False, s')
      | Inr (Going changed s') \<Rightarrow> if changed then update_domains s' else Inr (True, s'))"
  by pat_completeness auto

section \<open>Search\<close>

text \<open>
  The scan for the most constrained cell. \<open>best\<close> is \<open>None\<close> while \<open>best_pos\<close> is
  \<open>None\<close> and \<open>min_options\<close> is infinite, and holds
  \<open>(min_options, best_pos, best_values)\<close> afterwards.
\<close>

fun select_cell ::
  "(nat \<times> nat) list \<Rightarrow> (nat \<times> (nat \<times> nat) \<times> int set) option \<Rightarrow> state
   \<Rightarrow> error + (nat \<times> (nat \<times> nat) \<times> int set) option" where
  "select_cell [] best s = Inr best"
| "select_cell ((i, j) # rest) best s =
     (case grid_get (grid s) i j of
        Inl e \<Rightarrow> Inl e
      | Inr c \<Rightarrow>
          if c = None then
            (case common_values s i j of
               Inl e \<Rightarrow> Inl e
             | Inr common \<Rightarrow>
                 if (case best of None \<Rightarrow> True | Some (min_options, _) \<Rightarrow> card common < min_options)
                 then select_cell rest (Some (card common, (i, j), common)) s
                 else select_cell rest best s)
          else select_cell rest best s)"

text \<open>
  \<open>solve\<close>, and its loop \<open>for value in best_values\<close> as \<open>try_values\<close>. \<open>depth\<close> is the
  number of nested calls of \<open>solve\<close> the interpreter still allows. The candidate
  values are 0 and 1, which CPython's set iteration visits in increasing order. On
  failure of a branch only the branch cell is written back to \<open>None\<close>.
\<close>

fun solve :: "nat \<Rightarrow> state \<Rightarrow> error + bool \<times> state"
  and try_values :: "nat \<Rightarrow> nat \<Rightarrow> nat \<Rightarrow> int list \<Rightarrow> state \<Rightarrow> error + bool \<times> state" where
  "solve 0 s = Inl RecursionError"
| "solve (Suc depth) s =
     (case update_domains s of
        Inl e \<Rightarrow> Inl e
      | Inr (False, s1) \<Rightarrow> Inr (False, s1)
      | Inr (True, s1) \<Rightarrow>
          (case select_cell (List.product [0..<height s1] [0..<width s1]) None s1 of
             Inl e \<Rightarrow> Inl e
           | Inr None \<Rightarrow> Inr (True, s1)
           | Inr (Some (min_options, (i, j), best_values)) \<Rightarrow>
               try_values depth i j (sorted_list_of_set best_values) s1))"
| "try_values depth i j [] s = Inr (False, s)"
| "try_values depth i j (v # rest) s =
     (case solve depth (s\<lparr>grid := grid_set (grid s) i j (Some v)\<rparr>) of
        Inl e \<Rightarrow> Inl e
      | Inr (True, s') \<Rightarrow> Inr (True, s')
      | Inr (False, s') \<Rightarrow> try_values depth i j rest (s'\<lparr>grid := grid_set (grid s') i j None\<rparr>))"

section \<open>Notions used in the statements and proofs\<close>

subsection \<open>Painted lines\<close>

text \<open>
  \<open>render cur ps rest\<close> is the line that painting the blocks \<open>ps\<close> (start, length)
  leaves on the part \<open>rest\<close> of a line that begins at position \<open>cur\<close>;
  \<open>chain cur ps lim\<close> says that the blocks are positive, start at or after \<open>cur\<close>,
  leave a gap between neighbours, and that the last one ends before \<open>lim - 1\<close>.
\<close>

fun render :: "int \<Rightarrow> (int \<times> int) list \<Rightarrow> int list \<Rightarrow> int list" where
  "render cur [] rest = rest"
| "render cur (p # ps) rest =
     take (nat (fst p - cur)) rest @ replicate (nat (snd p)) 1
       @ render (fst p + snd p) ps (drop (nat (fst p + snd p - cur)) rest)"

fun chain :: "int \<Rightarrow> (int \<times> int) list \<Rightarrow> int \<Rightarrow> bool" where
  "chain cur [] lim = (cur \<le> lim)"
| "chain cur (p # ps) lim = (cur \<le> fst p \<and> 0 < snd p \<and> chain (fst p + snd p + 1) ps lim)"

subsection \<open>States\<close>

text \<open>
  The states the constructor builds and the solver keeps: the grid has \<open>height\<close> rows
  of \<open>width\<close> cells, there is one finite domain per row and per column, and every
  possibility has the length of its line.
\<close>

definition well_formed :: "state \<Rightarrow> bool" where
  "well_formed s \<longleftrightarrow>
     length (grid s) = height s \<and> (\<forall>row\<in>set (grid s). length row = width s) \<and>
     length (row_domains s) = height s \<and> length (col_domains s) = width s \<and>
     (\<forall>D\<in>set (row_domains s). finite D \<and> (\<forall>p\<in>D. length p = width s)) \<and>
     (\<forall>D\<in>set (col_domains s). finite D \<and> (\<forall>p\<in>D. length p = height s))"

text \<open>A state in which no cell has been fixed yet.\<close>

definition blank :: "state \<Rightarrow> bool" where
  "blank s \<longleftrightarrow> (\<forall>i<height s. \<forall>j<width s. grid s ! i ! j = None)"

text \<open>
  The number of unknown cells of a grid, and the rows and columns whose domain the
  filter leaves as it is.
\<close>

definition unknowns :: "int option list list \<Rightarrow> nat" where
  "unknowns g = sum_list (map (\<lambda>row. length (filter (\<lambda>c. c = None) row)) g)"

definition row_stable :: "state \<Rightarrow> nat \<Rightarrow> bool" where
  "row_stable s i =
     (i < length (row_domains s) \<and> row_domains s ! i \<noteq> {} \<and>
      filter_domain (valid (\<lambda>j. grid_get (grid s) i j) 0) (row_domains s ! i) = Inr (row_domains s ! i))"

definition col_stable :: "state \<Rightarrow> nat \<Rightarrow> bool" where
  "col_stable s j =
     (j < length (col_domains s) \<and> col_domains s ! j \<noteq> {} \<and>
      filter_domain (valid (\<lambda>i. grid_get (grid s) i j) 0) (col_domains s ! j) = Inr (col_domains s ! j))"

text \<open>A state that a pass leaves as it is and in which the scan finds no unknown cell.\<close>

definition settled :: "state \<Rightarrow> bool" where
  "settled s \<longleftrightarrow>
     sweep s = Inr (Going False s) \<and>
     select_cell (List.product [0..<height s] [0..<width s]) None s = Inr None"

subsection \<open>Relations between an earlier and a later state\<close>

text \<open>
  \<open>narrowed s s'\<close>: the dimensions and clues are the same and every domain of \<open>s'\<close>
  is a subset of the domain of \<open>s\<close> at the same index. \<open>refined g g'\<close>: the grids have
  the same shape and every cell of \<open>g'\<close> has the value it has in \<open>g\<close>, or was unknown
  in \<open>g\<close> and is fixed in \<open>g'\<close>. \<open>advances\<close> is both. All three are reflexive and
  transitive.
\<close>

definition narrowed :: "state \<Rightarrow> state \<Rightarrow> bool" where
  "narrowed s s' \<longleftrightarrow>
     height s' = height s \<and> width s' = width s \<and>
     row_constraints s' = row_constraints s \<and> col_constraints s' = col_constraints s \<and>
     length (row_domains s') = length (row_domains s) \<and>
     length (col_domains s') = length (col_domains s) \<and>
     (\<forall>i<length (row_domains s). row_domains s' ! i \<subseteq> row_domains s ! i) \<and>
     (\<forall>j<length (col_domains s). col_domains s' ! j \<subseteq> col_domains s ! j)"

definition refined :: "int option list list \<Rightarrow> int option list list \<Rightarrow> bool" where
  "refined g g' \<longleftrightarrow>
     length g' = length g \<and>
     (\<forall>i<length g. length (g' ! i) = length (g ! i) \<and>
        (\<forall>j<length (g ! i). g' ! i ! j = g ! i ! j \<or> (g ! i ! j = None \<and> g' ! i ! j \<noteq> None)))"

definition advances :: "state \<Rightarrow> state \<Rightarrow> bool" where
  "advances s s' \<longleftrightarrow> narrowed s s' \<and> refined (grid s) (grid s')"

text \<open>The state a pass ends with, however it ends.\<close>

fun flow_state :: "flow \<Rightarrow> state" where
  "flow_state (Failed s) = s"
| "flow_state (Going c s) = s"

subsection \<open>Example puzzles\<close>

text \<open>
  Rows \<open>[2], [1]\<close>, columns \<open>[2], [1]\<close>: the state the constructor builds and the
  state propagation alone reaches.
\<close>

definition example_2x2 :: state where
  "example_2x2 =
     \<lparr>row_constraints = [[2], [1]], col_constraints = [[2], [1]], height = 2, width = 2,
      grid = [[None, None], [None, None]],
      row_domains = [{[1, 1]}, {[1, 0], [0, 1]}],
      col_domains = [{[1, 1]}, {[1, 0], [0, 1]}]\<rparr>"

definition example_2x2_solved :: state where
  "example_2x2_solved =
     \<lparr>row_constraints = [[2], [1]], col_constraints = [[2], [1]], height = 2, width = 2,
      grid = [[Some 1, Some 1], [Some 1, Some 0]],
      row_domains = [{[1, 1]}, {[1, 0]}],
      col_domains = [{[1, 1]}, {[1, 0]}]\<rparr>"

text \<open>
  Rows \<open>[1], [1]\<close>, columns \<open>[1], [1]\<close>: two solutions; the search branches on cell
  (0, 0), tries 0 first and finds the anti-diagonal.
\<close>

definition example_diagonal :: state where
  "example_diagonal =
     \<lparr>row_constraints = [[1], [1]], col_constraints = [[1], [1]], height = 2, width = 2,
      grid = [[None, None], [None, None]],
      row_domains = [{[1, 0], [0, 1]}, {[1, 0], [0, 1]}],
      col_domains = [{[1, 0], [0, 1]}, {[1, 0], [0, 1]}]\<rparr>"

definition example_diagonal_solved :: state where
  "example_diagonal_solved =
     \<lparr>row_constraints = [[1], [1]], col_constraints = [[1], [1]], height = 2, width = 2,
      grid = [[Some 0, Some 1], [Some 1, Some 0]],
      row_domains = [{[0, 1]}, {[1, 0]}],
      col_domains = [{[0, 1]}, {[1, 0]}]\<rparr>"

text \<open>
  Rows \<open>[1, 1], [2], [1]\<close>, columns \<open>[1], [1], [2], [1]\<close>: as constructed, after the
  first propagation, and as \<open>solve\<close> leaves it.
\<close>

definition example_3x4 :: state where
  "example_3x4 =
     \<lparr>row_constraints = [[1, 1], [2], [1]], col_constraints = [[1], [1], [2], [1]],
      height = 3, width = 4,
      grid = [[None, None, None, None], [None, None, None, None], [None, None, None, None]],
      row_domains =
        [{[1, 0, 1, 0], [1, 0, 0, 1], [0, 1, 0, 1]},
         {[1, 1, 0, 0], [0, 1, 1, 0], [0, 0, 1, 1]},
         {[1, 0, 0, 0], [0, 1, 0, 0], [0, 0, 1, 0], [0, 0, 0, 1]}],
      col_domains =
        [{[1, 0, 0], [0, 1, 0], [0, 0, 1]}, {[1, 0, 0], [0, 1, 0], [0, 0, 1]},
         {[1, 1, 0], [0, 1, 1]}, {[1, 0, 0], [0, 1, 0], [0, 0, 1]}]\<rparr>"

definition example_3x4_propagated :: state where
  "example_3x4_propagated =
     \<lparr>row_constraints = [[1, 1], [2], [1]], col_constraints = [[1], [1], [2], [1]],
      height = 3, width = 4,
      grid = [[None, None, None, None], [Some 0, None, Some 1, None], [None, None, None, None]],
      row_domains =
        [{[1, 0, 1, 0], [1, 0, 0, 1], [0, 1, 0, 1]},
         {[0, 1, 1, 0], [0, 0, 1, 1]},
         {[1, 0, 0, 0], [0, 1, 0, 0], [0, 0, 1, 0], [0, 0, 0, 1]}],
      col_domains =
        [{[1, 0, 0], [0, 0, 1]}, {[1, 0, 0], [0, 1, 0], [0, 0, 1]},
         {[1, 1, 0], [0, 1, 1]}, {[1, 0, 0], [0, 1, 0], [0, 0, 1]}]\<rparr>"

definition example_3x4_failed :: state where
  "example_3x4_failed =
     \<lparr>row_constraints = [[1, 1], [2], [1]], col_constraints = [[1], [1], [2], [1]],
      height = 3, width = 4,
      grid = [[None, Some 1, Some 0, Some 1], [Some 0, Some 0, Some 1, Some 0],
              [Some 1, Some 0, None, Some 0]],
      row_domains = [{[0, 1, 0, 1]}, {[0, 1, 1, 0], [0, 0, 1, 1]}, {[1, 0, 0, 0]}],
      col_domains = [{[0, 0, 1]}, {[1, 0, 0]}, {[0, 1, 1]}, {[1, 0, 0]}]\<rparr>"

text \<open>Rows \<open>[1], [1], [1]\<close>, one column \<open>[4]\<close>, which does not fit in three cells.\<close>

definition example_too_long :: state where
  "example_too_long =
     \<lparr>row_constraints = [[1], [1], [1]], col_constraints = [[4]], height = 3, width = 1,
      grid = [[None], [None], [None]],
      row_domains = [{[1]}, {[1]}, {[1]}], col_domains = [{}]\<rparr>"

text \<open>
  Rows \<open>[1], [1], [1]\<close>, one column \<open>[1, 1]\<close>: as constructed and after propagation.
  The middle cell must be 1 for its row and 0 for its column.
\<close>

definition example_gap :: state where
  "example_gap =
     \<lparr>row_constraints = [[1], [1], [1]], col_constraints = [[1, 1]], height = 3, width = 1,
      grid = [[None], [None], [None]],
      row_domains = [{[1]}, {[1]}, {[1]}], col_domains = [{[1, 0, 1]}]\<rparr>"

definition example_gap_propagated :: state where
  "example_gap_propagated =
     \<lparr>row_constraints = [[1], [1], [1]], col_constraints = [[1, 1]], height = 3, width = 1,
      grid = [[Some 1], [None], [Some 1]],
      row_domains = [{[1]}, {[1]}, {[1]}], col_domains = [{[1, 0, 1]}]\<rparr>"

section \<open>The propagation loop ends\<close>

text \<open>
  A pass that reports a change either fixes a cell, or leaves the grid as it was and
  only narrows domains; in the second case the next pass finds every domain already
  filtered and no cell to fix. The number of unknown cells, counted twice, plus one
  while a pass would still report a change, therefore decreases with every iteration.
\<close>

lemma get_Inr: "get xs i = Inr x \<longleftrightarrow> i < length xs \<and> x = xs ! i"
  by (auto simp: get_def)

lemma get_Inl: "get xs i = Inl e \<longleftrightarrow> \<not> i < length xs \<and> e = IndexError"
  by (auto simp: get_def)

lemma filter_domain_Inr:
  "filter_domain ok D = Inr N \<longleftrightarrow> (\<forall>p\<in>D. \<not> isl (ok p)) \<and> N = {p \<in> D. ok p = Inr True}"
  by (auto simp: filter_domain_def)

lemma filter_domain_idem: "filter_domain ok D = Inr N \<Longrightarrow> filter_domain ok N = Inr N"
  by (auto simp: filter_domain_Inr)

lemma filter_domain_subset: "filter_domain ok D = Inr N \<Longrightarrow> N \<subseteq> D"
  by (auto simp: filter_domain_Inr)

lemma update_rows_frame:
  "update_rows is c s = Inr (Going c' s') \<Longrightarrow>
     grid s' = grid s \<and> col_domains s' = col_domains s \<and> height s' = height s \<and> width s' = width s
     \<and> row_constraints s' = row_constraints s \<and> col_constraints s' = col_constraints s
     \<and> length (row_domains s') = length (row_domains s)"
proof (induction "is" arbitrary: c s)
  case Nil
  then show ?case by simp
next
  case (Cons i rest)
  then show ?case
    by (fastforce split: sum.splits if_splits)
qed

lemma update_rows_keeps_stable:
  "update_rows is c s = Inr (Going c' s') \<Longrightarrow> row_stable s i \<Longrightarrow> row_stable s' i"
proof (induction "is" arbitrary: c s)
  case Nil
  then show ?case by simp
next
  case (Cons k rest)
  from Cons.prems(1) obtain D N where D: "get (row_domains s) k = Inr D"
    and N: "filter_domain (valid (\<lambda>j. grid_get (grid s) k j) 0) D = Inr N"
    and ne: "N \<noteq> {}"
    and rest: "update_rows rest (if N \<noteq> D then True else c)
                 (if N \<noteq> D then s\<lparr>row_domains := (row_domains s)[k := N]\<rparr> else s) = Inr (Going c' s')"
    by (auto split: sum.splits if_splits)
  have "row_stable (if N \<noteq> D then s\<lparr>row_domains := (row_domains s)[k := N]\<rparr> else s) i"
  proof (cases "k = i")
    case True
    with D N Cons.prems(2) have "N = D" by (simp add: row_stable_def get_Inr)
    then show ?thesis using Cons.prems(2) by simp
  next
    case False
    then show ?thesis using Cons.prems(2) by (simp add: row_stable_def)
  qed
  from Cons.IH[OF rest this] show ?case .
qed

lemma update_rows_makes_stable:
  "update_rows is c s = Inr (Going c' s') \<Longrightarrow> i \<in> set is \<Longrightarrow> row_stable s' i"
proof (induction "is" arbitrary: c s)
  case Nil
  then show ?case by simp
next
  case (Cons k rest)
  from Cons.prems(1) obtain D N where D: "get (row_domains s) k = Inr D"
    and N: "filter_domain (valid (\<lambda>j. grid_get (grid s) k j) 0) D = Inr N"
    and ne: "N \<noteq> {}"
    and rest: "update_rows rest (if N \<noteq> D then True else c)
                 (if N \<noteq> D then s\<lparr>row_domains := (row_domains s)[k := N]\<rparr> else s) = Inr (Going c' s')"
    by (auto split: sum.splits if_splits)
  show ?case
  proof (cases "i = k")
    case True
    have "row_stable (if N \<noteq> D then s\<lparr>row_domains := (row_domains s)[k := N]\<rparr> else s) k"
      using D N ne filter_domain_idem[OF N] by (auto simp: row_stable_def get_Inr)
    with update_rows_keeps_stable[OF rest] True show ?thesis by simp
  next
    case False
    with Cons.prems(2) have "i \<in> set rest" by simp
    from Cons.IH[OF rest this] show ?thesis .
  qed
qed

lemma update_rows_stable_noop:
  "\<forall>i\<in>set is. row_stable s i \<Longrightarrow> update_rows is c s = Inr (Going c s)"
  by (induction "is") (auto simp: row_stable_def get_def)

lemma update_cols_frame:
  "update_cols is c s = Inr (Going c' s') \<Longrightarrow>
     grid s' = grid s \<and> row_domains s' = row_domains s \<and> height s' = height s \<and> width s' = width s
     \<and> row_constraints s' = row_constraints s \<and> col_constraints s' = col_constraints s
     \<and> length (col_domains s') = length (col_domains s)"
proof (induction "is" arbitrary: c s)
  case Nil
  then show ?case by simp
next
  case (Cons i rest)
  then show ?case
    by (fastforce split: sum.splits if_splits)
qed

lemma update_cols_keeps_stable:
  "update_cols is c s = Inr (Going c' s') \<Longrightarrow> col_stable s i \<Longrightarrow> col_stable s' i"
proof (induction "is" arbitrary: c s)
  case Nil
  then show ?case by simp
next
  case (Cons k rest)
  from Cons.prems(1) obtain D N where D: "get (col_domains s) k = Inr D"
    and N: "filter_domain (valid (\<lambda>i. grid_get (grid s) i k) 0) D = Inr N"
    and ne: "N \<noteq> {}"
    and rest: "update_cols rest (if N \<noteq> D then True else c)
                 (if N \<noteq> D then s\<lparr>col_domains := (col_domains s)[k := N]\<rparr> else s) = Inr (Going c' s')"
    by (auto split: sum.splits if_splits)
  have "col_stable (if N \<noteq> D then s\<lparr>col_domains := (col_domains s)[k := N]\<rparr> else s) i"
  proof (cases "k = i")
    case True
    with D N Cons.prems(2) have "N = D" by (simp add: col_stable_def get_Inr)
    then show ?thesis using Cons.prems(2) by simp
  next
    case False
    then show ?thesis using Cons.prems(2) by (simp add: col_stable_def)
  qed
  from Cons.IH[OF rest this] show ?case .
qed

lemma update_cols_makes_stable:
  "update_cols is c s = Inr (Going c' s') \<Longrightarrow> i \<in> set is \<Longrightarrow> col_stable s' i"
proof (induction "is" arbitrary: c s)
  case Nil
  then show ?case by simp
next
  case (Cons k rest)
  from Cons.prems(1) obtain D N where D: "get (col_domains s) k = Inr D"
    and N: "filter_domain (valid (\<lambda>i. grid_get (grid s) i k) 0) D = Inr N"
    and ne: "N \<noteq> {}"
    and rest: "update_cols rest (if N \<noteq> D then True else c)
                 (if N \<noteq> D then s\<lparr>col_domains := (col_domains s)[k := N]\<rparr> else s) = Inr (Going c' s')"
    by (auto split: sum.splits if_splits)
  show ?case
  proof (cases "i = k")
    case True
    have "col_stable (if N \<noteq> D then s\<lparr>col_domains := (col_domains s)[k := N]\<rparr> else s) k"
      using D N ne filter_domain_idem[OF N] by (auto simp: col_stable_def get_Inr)
    with update_cols_keeps_stable[OF rest] True show ?thesis by simp
  next
    case False
    with Cons.prems(2) have "i \<in> set rest" by simp
    from Cons.IH[OF rest this] show ?thesis .
  qed
qed

lemma update_cols_stable_noop:
  "\<forall>i\<in>set is. col_stable s i \<Longrightarrow> update_cols is c s = Inr (Going c s)"
  by (induction "is") (auto simp: col_stable_def get_def)

lemma update_rows_keeps_col_stable:
  "update_rows is c s = Inr (Going c' s') \<Longrightarrow> col_stable s j \<Longrightarrow> col_stable s' j"
  by (drule update_rows_frame) (simp add: col_stable_def)

lemma update_cols_keeps_row_stable:
  "update_cols js c s = Inr (Going c' s') \<Longrightarrow> row_stable s i \<Longrightarrow> row_stable s' i"
  by (drule update_cols_frame) (simp add: row_stable_def)

lemma grid_get_Inr:
  "grid_get g i j = Inr c \<longleftrightarrow> i < length g \<and> j < length (g ! i) \<and> c = g ! i ! j"
  by (auto simp: grid_get_def get_def)

lemma filter_None_update:
  "j < length row \<Longrightarrow> row ! j = None \<Longrightarrow>
   Suc (length (filter (\<lambda>c. c = None) (row[j := Some v]))) = length (filter (\<lambda>c. c = None) row)"
proof (induction row arbitrary: j)
  case Nil
  then show ?case by simp
next
  case (Cons c row)
  then show ?case by (cases j) auto
qed

lemma unknowns_grid_set:
  "i < length g \<Longrightarrow> j < length (g ! i) \<Longrightarrow> g ! i ! j = None \<Longrightarrow>
   Suc (unknowns (grid_set g i j (Some v))) = unknowns g"
proof (induction g arbitrary: i)
  case Nil
  then show ?case by simp
next
  case (Cons row g)
  show ?case
  proof (cases i)
    case 0
    with Cons.prems filter_None_update[of j row v] show ?thesis
      by (simp add: unknowns_def grid_set_def)
  next
    case (Suc k)
    with Cons.prems Cons.IH[of k] show ?thesis
      by (simp add: unknowns_def grid_set_def)
  qed
qed

lemma infer_cells_frame:
  "infer_cells cells c s = Inr (c', s') \<Longrightarrow>
     row_domains s' = row_domains s \<and> col_domains s' = col_domains s \<and> height s' = height s
     \<and> width s' = width s \<and> row_constraints s' = row_constraints s
     \<and> col_constraints s' = col_constraints s"
proof (induction cells c s rule: infer_cells.induct)
  case (1 changed s)
  then show ?case by simp
next
  case (2 i j rest changed s)
  then show ?case
    by (fastforce split: sum.splits if_splits simp: common_values_def)
qed

lemma infer_cells_unknowns:
  "infer_cells cells c s = Inr (c', s') \<Longrightarrow> unknowns (grid s') \<le> unknowns (grid s)"
proof (induction cells c s rule: infer_cells.induct)
  case (1 changed s)
  then show ?case by simp
next
  case (2 i j rest changed s)
  from "2.prems" obtain cv where cv: "grid_get (grid s) i j = Inr cv"
    by (auto split: sum.splits)
  show ?case
  proof (cases "cv = None")
    case False
    with cv "2.prems" "2.IH"(3) show ?thesis by auto
  next
    case True
    with cv "2.prems" obtain common where cm: "common_values s i j = Inr common"
      by (auto split: sum.splits)
    show ?thesis
    proof (cases "card common = 1")
      case False
      with True cv cm "2.prems" "2.IH"(2) show ?thesis by auto
    next
      case c1: True
      with True cv cm "2.prems"
      have "infer_cells rest True (s\<lparr>grid := grid_set (grid s) i j (Some (Min common))\<rparr>) = Inr (c', s')"
        by simp
      from "2.IH"(1)[OF cv True cm c1 this]
      have "unknowns (grid s') \<le> unknowns (grid_set (grid s) i j (Some (Min common)))" by simp
      moreover from cv True have "Suc (unknowns (grid_set (grid s) i j (Some (Min common)))) = unknowns (grid s)"
        by (intro unknowns_grid_set) (auto simp: grid_get_Inr)
      ultimately show ?thesis by linarith
    qed
  qed
qed

lemma infer_cells_unchanged:
  "infer_cells cells c s = Inr (c', s') \<Longrightarrow> unknowns (grid s) \<le> unknowns (grid s') \<Longrightarrow>
   s' = s \<and> c' = c \<and> (\<forall>c''. infer_cells cells c'' s = Inr (c'', s))"
proof (induction cells c s rule: infer_cells.induct)
  case (1 changed s)
  then show ?case by simp
next
  case (2 i j rest changed s)
  from "2.prems" obtain cv where cv: "grid_get (grid s) i j = Inr cv"
    by (auto split: sum.splits)
  show ?case
  proof (cases "cv = None")
    case False
    with cv "2.prems" "2.IH"(3) show ?thesis by auto
  next
    case True
    with cv "2.prems" obtain common where cm: "common_values s i j = Inr common"
      by (auto split: sum.splits)
    show ?thesis
    proof (cases "card common = 1")
      case False
      with True cv cm "2.prems" "2.IH"(2) show ?thesis by auto
    next
      case c1: True
      with True cv cm "2.prems"
      have r: "infer_cells rest True (s\<lparr>grid := grid_set (grid s) i j (Some (Min common))\<rparr>) = Inr (c', s')"
        by simp
      from infer_cells_unknowns[OF r]
      have "unknowns (grid s') \<le> unknowns (grid_set (grid s) i j (Some (Min common)))" by simp
      moreover from cv True have "Suc (unknowns (grid_set (grid s) i j (Some (Min common)))) = unknowns (grid s)"
        by (intro unknowns_grid_set) (auto simp: grid_get_Inr)
      ultimately have False using "2.prems"(2) by linarith
      then show ?thesis ..
    qed
  qed
qed

lemma sweep_Going:
  "sweep s = Inr (Going c s') \<longleftrightarrow>
     (\<exists>c1 s1 c2 s2. update_rows [0..<height s] False s = Inr (Going c1 s1) \<and>
        update_cols [0..<width s1] c1 s1 = Inr (Going c2 s2) \<and>
        infer_cells (List.product [0..<height s2] [0..<width s2]) c2 s2 = Inr (c, s'))"
  by (auto simp: sweep_def split: sum.splits flow.splits)

lemma sweep_unknowns: "sweep s = Inr (Going c s') \<Longrightarrow> unknowns (grid s') \<le> unknowns (grid s)"
  by (auto simp: sweep_Going dest!: update_rows_frame update_cols_frame infer_cells_unknowns)

lemma sweep_settles:
  assumes "sweep s = Inr (Going c s')" and "unknowns (grid s) \<le> unknowns (grid s')"
  shows "sweep s' = Inr (Going False s')"
proof -
  from assms(1) obtain c1 s1 c2 s2 where
    r: "update_rows [0..<height s] False s = Inr (Going c1 s1)" and
    c: "update_cols [0..<width s1] c1 s1 = Inr (Going c2 s2)" and
    f: "infer_cells (List.product [0..<height s2] [0..<width s2]) c2 s2 = Inr (c, s')"
    by (auto simp: sweep_Going)
  from update_rows_frame[OF r] update_cols_frame[OF c]
  have eq: "grid s2 = grid s" "height s2 = height s" "width s2 = width s1" by simp_all
  with assms(2) have "unknowns (grid s2) \<le> unknowns (grid s')" by simp
  from infer_cells_unchanged[OF f this]
  have s': "s' = s2" and f': "infer_cells (List.product [0..<height s2] [0..<width s2]) False s2 = Inr (False, s2)"
    by simp_all
  have "\<forall>i\<in>set [0..<height s2]. row_stable s2 i"
    using update_rows_makes_stable[OF r] update_cols_keeps_row_stable[OF c] eq by auto
  then have r': "update_rows [0..<height s2] False s2 = Inr (Going False s2)"
    by (rule update_rows_stable_noop)
  have "\<forall>j\<in>set [0..<width s2]. col_stable s2 j"
    using update_cols_makes_stable[OF c] eq by auto
  then have c': "update_cols [0..<width s2] False s2 = Inr (Going False s2)"
    by (rule update_cols_stable_noop)
  from r' c' f' show ?thesis unfolding s' by (simp add: sweep_def)
qed

termination update_domains
proof (relation "measure (\<lambda>s. 2 * unknowns (grid s) + (if \<exists>s'. sweep s = Inr (Going True s') then 1 else 0))")
  show "wf (measure (\<lambda>s. 2 * unknowns (grid s) + (if \<exists>s'. sweep s = Inr (Going True s') then 1 else 0)))"
    by simp
next
  fix s :: state and x2 x22 and changed :: bool
  assume a: "sweep s = Inr x2" "x2 = Going changed x22" "changed"
  then have sw: "sweep s = Inr (Going True x22)" by simp
  show "(x22, s) \<in> measure (\<lambda>s. 2 * unknowns (grid s) + (if \<exists>s'. sweep s = Inr (Going True s') then 1 else 0))"
  proof (cases "unknowns (grid x22) < unknowns (grid s)")
    case True
    then show ?thesis using sw by auto
  next
    case False
    then have "sweep x22 = Inr (Going False x22)" using sweep_settles[OF sw] by simp
    moreover from False sweep_unknowns[OF sw] have "unknowns (grid x22) = unknowns (grid s)" by simp
    ultimately show ?thesis using sw by auto
  qed
qed

declare update_domains.simps [simp del]

section \<open>Properties of the generator\<close>

lemma chain_le: "chain cur ps lim \<Longrightarrow> cur \<le> lim"
  by (induction ps arbitrary: cur) fastforce+

lemma chain_start_mono: "chain cur ps lim \<Longrightarrow> cur' \<le> cur \<Longrightarrow> chain cur' ps lim"
  by (cases ps) auto

lemma chain_lim_mono: "chain cur ps lim \<Longrightarrow> lim \<le> lim' \<Longrightarrow> chain cur ps lim'"
  by (induction ps arbitrary: cur) auto

lemma chain_append:
  "chain cur (ps @ [p]) lim \<longleftrightarrow> chain cur ps (fst p) \<and> 0 < snd p \<and> fst p + snd p + 1 \<le> lim"
  by (induction ps arbitrary: cur) auto

lemma py_setitem_length: "py_setitem xs k v = Inr ys \<Longrightarrow> length ys = length xs"
  by (auto simp: py_setitem_def Let_def split: if_splits)

lemma py_setitem_set: "py_setitem xs k v = Inr ys \<Longrightarrow> set ys \<subseteq> insert v (set xs)"
  by (auto simp: py_setitem_def Let_def split: if_splits dest: subsetD[OF set_update_subset_insert])

lemma paint_cells_length: "paint_cells s is line = Inr l \<Longrightarrow> length l = length line"
  by (induction "is" arbitrary: line) (auto split: sum.splits dest: py_setitem_length)

lemma paint_cells_set: "paint_cells s is line = Inr l \<Longrightarrow> set l \<subseteq> insert 1 (set line)"
  by (induction "is" arbitrary: line) (fastforce split: sum.splits dest: py_setitem_set)+

lemma paint_length: "paint ps line = Inr l \<Longrightarrow> length l = length line"
  by (induction ps arbitrary: line) (auto split: sum.splits dest: paint_cells_length)

lemma paint_set: "paint ps line = Inr l \<Longrightarrow> set l \<subseteq> insert 1 (set line)"
  by (induction ps arbitrary: line) (fastforce split: sum.splits dest: paint_cells_set)+

lemma paint_cells_append:
  "paint_cells s (xs @ ys) line =
     (case paint_cells s xs line of Inl e \<Rightarrow> Inl e | Inr l \<Rightarrow> paint_cells s ys l)"
  by (induction xs arbitrary: line) (auto split: sum.splits)

lemma paint_cells_run:
  "0 \<le> s \<Longrightarrow> nat s + b \<le> length line \<Longrightarrow>
   paint_cells s [0..<b] line = Inr (take (nat s) line @ replicate b 1 @ drop (nat s + b) line)"
proof (induction b)
  case 0
  then show ?case by simp
next
  case (Suc b)
  let ?l = "take (nat s) line @ replicate b 1 @ drop (nat s + b) line"
  from Suc have prev: "paint_cells s [0..<b] line = Inr ?l" by simp
  have len: "length ?l = length line" using Suc.prems by simp
  have idx: "nat (s + int b) = nat s + b" using Suc.prems by simp
  have "py_setitem ?l (s + int b) 1 = Inr (?l[nat s + b := 1])"
    unfolding py_setitem_def Let_def len using Suc.prems idx by auto
  moreover have "?l[nat s + b := 1] = take (nat s) line @ replicate (Suc b) 1 @ drop (nat s + Suc b) line"
  proof -
    have "drop (nat s + b) line = line ! (nat s + b) # drop (Suc (nat s + b)) line"
      using Suc.prems by (simp add: Cons_nth_drop_Suc)
    then have "?l[nat s + b := 1] = take (nat s) line @ replicate b 1 @ 1 # drop (Suc (nat s + b)) line"
      using Suc.prems by (simp add: list_update_append)
    then show ?thesis by (simp add: replicate_append_same)
  qed
  ultimately show ?case using prev by (simp add: paint_cells_append)
qed

lemma paint_render:
  "chain cur ps (int (length pre + length rest) + 1) \<Longrightarrow> cur = int (length pre) \<Longrightarrow>
   paint ps (pre @ rest) = Inr (pre @ render cur ps rest)"
proof (induction ps arbitrary: pre rest cur)
  case Nil
  then show ?case by simp
next
  case (Cons p ps)
  obtain s b where p: "p = (s, b)" by (cases p)
  from Cons.prems p have s: "cur \<le> s" and b: "0 < b"
    and ch: "chain (s + b + 1) ps (int (length pre + length rest) + 1)" by simp_all
  from chain_le[OF ch] have fit: "s + b \<le> int (length pre + length rest)" by simp
  let ?line = "pre @ rest"
  have "paint_cells s [0..<nat b] ?line
          = Inr (take (nat s) ?line @ replicate (nat b) 1 @ drop (nat s + nat b) ?line)"
    using s b fit Cons.prems(2) by (intro paint_cells_run) auto
  moreover have "take (nat s) ?line = pre @ take (nat (s - cur)) rest"
    using s Cons.prems(2) by (simp add: nat_diff_distrib)
  moreover have "drop (nat s + nat b) ?line = drop (nat (s + b - cur)) rest"
  proof -
    have "nat s + nat b - length pre = nat (s + b - cur)"
      using s b Cons.prems(2) by linarith
    moreover have "length pre \<le> nat s + nat b" using s b Cons.prems(2) by linarith
    ultimately show ?thesis by simp
  qed
  ultimately have step: "paint_cells s [0..<nat b] ?line
      = Inr ((pre @ take (nat (s - cur)) rest @ replicate (nat b) 1) @ drop (nat (s + b - cur)) rest)"
    by simp
  let ?pre = "pre @ take (nat (s - cur)) rest @ replicate (nat b) 1"
  let ?rest = "drop (nat (s + b - cur)) rest"
  have lp: "int (length ?pre) = s + b" using s b fit Cons.prems(2) by auto
  have lr: "int (length ?pre + length ?rest) = int (length pre + length rest)"
    using s b fit Cons.prems(2) by auto
  have "chain (s + b) ps (int (length ?pre + length ?rest) + 1)"
    unfolding lr using ch by (rule chain_start_mono) simp
  from Cons.IH[OF this lp[symmetric]] have "paint ps (?pre @ ?rest) = Inr (?pre @ render (s + b) ps ?rest)" .
  with step show ?case by (simp add: p)
qed

lemma extend_all_Inr: "extend_all (map (\<lambda>x. Inr (f x)) xs) = Inr (concat (map f xs))"
  by (induction xs) auto

lemma scan_line_zeros:
  "scan_line (replicate a 0 @ xs) clues count =
     scan_line xs (if 0 < a \<and> 0 < count then clues @ [count] else clues)
                  (if 0 < a \<and> 0 < count then 0 else count)"
  by (induction a arbitrary: clues count) auto

lemma scan_line_ones:
  "scan_line (replicate b 1 @ xs) clues count = scan_line xs clues (count + int b)"
  by (induction b arbitrary: count) (auto simp: algebra_simps)

lemma scan_line_render:
  "chain (if 0 < count then cur + 1 else cur) ps lim \<Longrightarrow> 0 \<le> count \<Longrightarrow> lim \<le> cur + int m + 1 \<Longrightarrow>
   scan_line (render cur ps (replicate m 0)) clues count
     = (if 0 < count then clues @ [count] else clues) @ map snd ps"
proof (induction ps arbitrary: cur m clues count)
  case Nil
  then show ?case using scan_line_zeros[of m "[]" clues count] by auto
next
  case (Cons p ps)
  obtain s b where p: "p = (s, b)" by (cases p)
  from Cons.prems p have s: "(if 0 < count then cur + 1 else cur) \<le> s" and b: "0 < b"
    and ch: "chain (s + b + 1) ps lim" by simp_all
  from chain_le[OF ch] Cons.prems(3) have fit: "s + b \<le> cur + int m" by simp
  have cur: "cur \<le> s" using s by (simp split: if_splits)
  let ?a = "nat (s - cur)" and ?m = "m - nat (s + b - cur)"
  have r: "render cur (p # ps) (replicate m 0)
             = replicate ?a 0 @ replicate (nat b) 1 @ render (s + b) ps (replicate ?m 0)"
    using cur b fit by (simp add: p min_def)
  have z: "0 < count \<Longrightarrow> 0 < ?a" using s by (simp split: if_splits)
  have "scan_line (render cur (p # ps) (replicate m 0)) clues count
          = scan_line (render (s + b) ps (replicate ?m 0))
              (if 0 < count then clues @ [count] else clues) b"
    unfolding r scan_line_zeros scan_line_ones using z b Cons.prems(2) by auto
  also have "\<dots> = ((if 0 < count then clues @ [count] else clues) @ [b]) @ map snd ps"
  proof -
    have "chain (if 0 < b then s + b + 1 else s + b) ps lim" using b ch by simp
    moreover have "lim \<le> s + b + int ?m + 1" using Cons.prems(3) cur b fit by linarith
    ultimately show ?thesis using Cons.IH[of b "s + b" ?m] b by simp
  qed
  finally show ?case by (simp add: p)
qed

lemma extend_all_good:
  "\<forall>r\<in>set rs. \<exists>xs. r = Inr xs \<and> (\<forall>x\<in>set xs. P x) \<Longrightarrow>
   \<exists>ys. extend_all rs = Inr ys \<and> (\<forall>y\<in>set ys. P y)"
  by (induction rs) (auto split: sum.splits)

lemma generate_positions_sound:
  "\<forall>b\<in>set blocks. 0 < b \<Longrightarrow> chain 0 pos_list pos \<Longrightarrow> (blocks = [] \<longrightarrow> pos \<le> int len + 1) \<Longrightarrow>
   \<exists>ls. generate_positions len pos_list pos blocks = Inr ls \<and>
        (\<forall>l\<in>set ls. length l = len \<and> set l \<subseteq> {0, 1} \<and> filled_runs l = map snd pos_list @ blocks)"
proof (induction blocks arbitrary: pos_list pos)
  case Nil
  then have ch: "chain 0 pos_list (int len + 1)" by (auto intro: chain_lim_mono)
  then have p: "paint pos_list ([] @ replicate len 0) = Inr ([] @ render 0 pos_list (replicate len 0))"
    by (intro paint_render) auto
  let ?l = "render 0 pos_list (replicate len 0)"
  from p have "length ?l = len" "set ?l \<subseteq> {0, 1}"
    using paint_length[of pos_list "replicate len 0" ?l] paint_set[of pos_list "replicate len 0" ?l]
    by auto
  moreover have "filled_runs ?l = map snd pos_list"
    using scan_line_render[of 0 0 pos_list "int len + 1" len "[]"] ch by (simp add: filled_runs_def)
  ultimately show ?case using p by simp
next
  case (Cons block rest)
  let ?max = "int len - sum_list (block # rest) - (int (length (block # rest)) - 1)"
  let ?P = "\<lambda>l. length l = len \<and> set l \<subseteq> {0, 1} \<and> filled_runs l = map snd pos_list @ block # rest"
  let ?f = "\<lambda>start. if list_all (\<lambda>p. fst p + snd p \<le> start) pos_list
                then generate_positions len (pos_list @ [(start, block)]) (start + block + 1) rest
                else Inr []"
  have good: "\<exists>xs. ?f start = Inr xs \<and> (\<forall>x\<in>set xs. ?P x)" if st: "start \<in> set [pos..?max]" for start
  proof (cases "list_all (\<lambda>p. fst p + snd p \<le> start) pos_list")
    case False
    then show ?thesis by simp
  next
    case True
    from st have lo: "pos \<le> start" and hi: "start \<le> ?max" by simp_all
    have "chain 0 (pos_list @ [(start, block)]) (start + block + 1)"
      using Cons.prems lo by (auto simp: chain_append intro: chain_lim_mono)
    moreover have "rest = [] \<longrightarrow> start + block + 1 \<le> int len + 1" using hi by auto
    moreover have "\<forall>b\<in>set rest. 0 < b" using Cons.prems by simp
    ultimately show ?thesis using Cons.IH[of "pos_list @ [(start, block)]" "start + block + 1"] True
      by simp
  qed
  have "\<forall>r\<in>set (map ?f [pos..?max]). \<exists>xs. r = Inr xs \<and> (\<forall>x\<in>set xs. ?P x)"
  proof
    fix r
    assume "r \<in> set (map ?f [pos..?max])"
    then obtain start where "start \<in> set [pos..?max]" and "r = ?f start"
      unfolding set_map by blast
    with good[of start] show "\<exists>xs. r = Inr xs \<and> (\<forall>x\<in>set xs. ?P x)"
      by simp
  qed
  from extend_all_good[OF this] show ?case
    by (simp add: Let_def)
qed

lemma generate_line_possibilities_lines:
  "\<forall>b\<in>set blocks. 0 < b \<Longrightarrow>
   \<exists>ls. generate_line_possibilities blocks len = Inr ls \<and>
        (\<forall>l\<in>set ls. length l = len \<and> set l \<subseteq> {0, 1} \<and> filled_runs l = blocks)"
proof (cases "blocks = []")
  case True
  have "filled_runs (replicate len 0) = []"
    using scan_line_zeros[of len "[]" "[]" 0] by (simp add: filled_runs_def)
  with True show ?thesis by (auto simp: generate_line_possibilities_def)
next
  case False
  assume pos: "\<forall>b\<in>set blocks. 0 < b"
  from generate_positions_sound[of blocks "[]" 0 len] pos False
  show ?thesis by (auto simp: generate_line_possibilities_def Let_def)
qed

text \<open>
  C5. For positive block lengths the generator returns without raising, and every
  line it returns has the requested length, holds only 0 and 1, and has exactly the
  given blocks as its maximal runs of 1, in order (as the clue extractor's own scan
  reads them).
\<close>

theorem generate_line_possibilities_sound:
  "\<forall>b\<in>set blocks. 0 < b \<Longrightarrow>
   \<exists>ls. generate_line_possibilities blocks len = Inr ls \<and>
        (\<forall>l\<in>set ls. length l = len \<and> set l \<subseteq> {0, 1} \<and> filled_runs l = blocks)"
  by (rule generate_line_possibilities_lines)

theorem generate_line_possibilities_sound_witness:
  "generate_line_possibilities [1, 2] 5 = Inr [[1, 0, 1, 1, 0], [1, 0, 0, 1, 1], [0, 1, 0, 1, 1]] \<and>
   filled_runs [1, 0, 1, 1, 0] = [1, 2] \<and> filled_runs [1, 0, 0, 1, 1] = [1, 2] \<and>
   filled_runs [0, 1, 0, 1, 1] = [1, 2]"
proof -
  have h: "\<forall>b\<in>set [1, 2::int]. 0 < b" by simp
  have g: "generate_line_possibilities [1, 2] 5 = Inr [[1, 0, 1, 1, 0], [1, 0, 0, 1, 1], [0, 1, 0, 1, 1]]"
    by code_simp
  from generate_line_possibilities_sound[OF h, of 5] g show ?thesis by simp
qed

lemma filled_runs_zeros: "filled_runs (replicate n 0) = []"
  using scan_line_zeros[of n "[]" "[]" 0] by (simp add: filled_runs_def)

lemma generate_blank_marker:
  "generate_line_possibilities [0] len = Inr (replicate (Suc len) (replicate len 0))"
proof -
  have "generate_line_possibilities [0] len =
          extend_all (map (\<lambda>start. Inr [replicate len 0]) [0..int len])"
    by (simp add: generate_line_possibilities_def)
  also have "\<dots> = Inr (concat (map (\<lambda>start. [replicate len (0::int)]) [0..int len]))"
    by (rule extend_all_Inr)
  also have "concat (map (\<lambda>start. [replicate len (0::int)]) [0..int len])
               = replicate (length [0..int len]) (replicate len 0)"
    by (induction "[0..int len]") (simp_all add: map_replicate_const)
  also have "length [0..int len] = Suc len"
    by (simp add: nat_add_distrib)
  finally show ?thesis .
qed

text \<open>
  C10. For every line length, the clue \<open>[0]\<close> that \<open>extract_clues\<close> writes for a blank
  line gives, once the generator's list is turned into a set, the domain that holds
  the all-empty line and nothing else: the domain of the empty clue.
\<close>

theorem blank_marker_domain:
  "generate_domains [[0]] len = Inr [{replicate len 0}]
   \<and> generate_domains [[0]] len = generate_domains [[]] len
   \<and> map_sum id set (generate_line_possibilities [0] len) = Inr {replicate len 0}
   \<and> extract_clues (replicate len 0) = [0]"
proof -
  have "generate_line_possibilities [] len = Inr [replicate len 0]"
    by (simp add: generate_line_possibilities_def)
  then show ?thesis
    by (simp add: generate_blank_marker extract_clues_def filled_runs_zeros set_replicate_conv_if)
qed

theorem blank_marker_domain_witness:
  "generate_domains [[0]] 3 = Inr [{[0, 0, 0]}] \<and> generate_domains [[]] 3 = Inr [{[0, 0, 0]}]
   \<and> extract_clues [0, 0, 0] = [0]"
proof -
  have r: "replicate 3 (0::int) = [0, 0, 0]"
    by (simp add: numeral_3_eq_3)
  from blank_marker_domain[of 3] show ?thesis
    unfolding r by metis
qed

section \<open>Propagation only narrows domains and fixes cells\<close>

lemma narrowed_refl: "narrowed s s"
  by (simp add: narrowed_def)

lemma narrowed_trans: "narrowed s s' \<Longrightarrow> narrowed s' s'' \<Longrightarrow> narrowed s s''"
  unfolding narrowed_def by (intro conjI allI impI; (simp; fail)?) (metis subset_trans)+

lemma refined_refl: "refined g g"
  by (simp add: refined_def)

lemma refined_trans: "refined g g' \<Longrightarrow> refined g' g'' \<Longrightarrow> refined g g''"
proof -
  assume a: "refined g g'" and b: "refined g' g''"
  show ?thesis
    unfolding refined_def
  proof (intro conjI allI impI)
    show "length g'' = length g" using a b by (simp add: refined_def)
  next
    fix i assume i: "i < length g"
    show "length (g'' ! i) = length (g ! i)" using a b i by (simp add: refined_def)
  next
    fix i j assume i: "i < length g" and j: "j < length (g ! i)"
    from a i j have 1: "g' ! i ! j = g ! i ! j \<or> (g ! i ! j = None \<and> g' ! i ! j \<noteq> None)"
      and l: "length (g' ! i) = length (g ! i)" "length g' = length g"
      by (simp_all add: refined_def)
    from b i j l have 2: "g'' ! i ! j = g' ! i ! j \<or> (g' ! i ! j = None \<and> g'' ! i ! j \<noteq> None)"
      by (simp add: refined_def)
    from 1 2 show "g'' ! i ! j = g ! i ! j \<or> (g ! i ! j = None \<and> g'' ! i ! j \<noteq> None)"
      by auto
  qed
qed

lemma advances_refl: "advances s s"
  by (simp add: advances_def narrowed_refl refined_refl)

lemma advances_trans: "advances s s' \<Longrightarrow> advances s' s'' \<Longrightarrow> advances s s''"
  by (auto simp: advances_def intro: narrowed_trans refined_trans)

lemma narrowed_row_update:
  "i < length (row_domains s) \<Longrightarrow> N \<subseteq> row_domains s ! i \<Longrightarrow>
   narrowed s (s\<lparr>row_domains := (row_domains s)[i := N]\<rparr>)"
  by (auto simp: narrowed_def nth_list_update)

lemma narrowed_col_update:
  "j < length (col_domains s) \<Longrightarrow> N \<subseteq> col_domains s ! j \<Longrightarrow>
   narrowed s (s\<lparr>col_domains := (col_domains s)[j := N]\<rparr>)"
  by (auto simp: narrowed_def nth_list_update)

lemma update_rows_advances:
  "update_rows is c s = Inr f \<Longrightarrow> advances s (flow_state f)"
proof (induction "is" arbitrary: c s)
  case Nil
  then show ?case by (auto simp: advances_refl)
next
  case (Cons k rest)
  from Cons.prems obtain D N where D: "get (row_domains s) k = Inr D"
    and N: "filter_domain (valid (\<lambda>j. grid_get (grid s) k j) 0) D = Inr N"
    by (auto split: sum.splits)
  let ?s = "s\<lparr>row_domains := (row_domains s)[k := N]\<rparr>"
  have a: "advances s ?s"
    using D filter_domain_subset[OF N] by (simp add: advances_def refined_refl narrowed_row_update get_Inr)
  show ?case
  proof (cases "N = {}")
    case True
    with Cons.prems D N show ?thesis by (auto simp: advances_refl)
  next
    case ne: False
    show ?thesis
    proof (cases "N = D")
      case True
      with ne Cons.prems D N have "update_rows rest c s = Inr f" by simp
      then show ?thesis by (rule Cons.IH)
    next
      case False
      with ne Cons.prems D N have "update_rows rest True ?s = Inr f" by simp
      from Cons.IH[OF this] a show ?thesis by (rule advances_trans[rotated])
    qed
  qed
qed

lemma update_cols_advances:
  "update_cols is c s = Inr f \<Longrightarrow> advances s (flow_state f)"
proof (induction "is" arbitrary: c s)
  case Nil
  then show ?case by (auto simp: advances_refl)
next
  case (Cons k rest)
  from Cons.prems obtain D N where D: "get (col_domains s) k = Inr D"
    and N: "filter_domain (valid (\<lambda>i. grid_get (grid s) i k) 0) D = Inr N"
    by (auto split: sum.splits)
  let ?s = "s\<lparr>col_domains := (col_domains s)[k := N]\<rparr>"
  have a: "advances s ?s"
    using D filter_domain_subset[OF N] by (simp add: advances_def refined_refl narrowed_col_update get_Inr)
  show ?case
  proof (cases "N = {}")
    case True
    with Cons.prems D N show ?thesis by (auto simp: advances_refl)
  next
    case ne: False
    show ?thesis
    proof (cases "N = D")
      case True
      with ne Cons.prems D N have "update_cols rest c s = Inr f" by simp
      then show ?thesis by (rule Cons.IH)
    next
      case False
      with ne Cons.prems D N have "update_cols rest True ?s = Inr f" by simp
      from Cons.IH[OF this] a show ?thesis by (rule advances_trans[rotated])
    qed
  qed
qed

lemma refined_grid_set:
  "i < length g \<Longrightarrow> j < length (g ! i) \<Longrightarrow> g ! i ! j = None \<Longrightarrow> refined g (grid_set g i j (Some v))"
  by (auto simp: refined_def grid_set_def nth_list_update)

lemma advances_grid_set:
  "grid_get (grid s) i j = Inr None \<Longrightarrow> advances s (s\<lparr>grid := grid_set (grid s) i j (Some v)\<rparr>)"
  by (simp add: advances_def narrowed_def refined_grid_set grid_get_Inr)

lemma infer_cells_advances:
  "infer_cells cells c s = Inr (c', s') \<Longrightarrow> advances s s'"
proof (induction cells c s rule: infer_cells.induct)
  case (1 changed s)
  then show ?case by (simp add: advances_refl)
next
  case (2 i j rest changed s)
  from "2.prems" obtain cv where cv: "grid_get (grid s) i j = Inr cv"
    by (auto split: sum.splits)
  show ?case
  proof (cases "cv = None")
    case False
    with cv "2.prems" "2.IH"(3) show ?thesis by auto
  next
    case True
    with cv "2.prems" obtain common where cm: "common_values s i j = Inr common"
      by (auto split: sum.splits)
    show ?thesis
    proof (cases "card common = 1")
      case False
      with True cv cm "2.prems" "2.IH"(2) show ?thesis by auto
    next
      case c1: True
      let ?s = "s\<lparr>grid := grid_set (grid s) i j (Some (Min common))\<rparr>"
      from True cv cm c1 "2.prems" have "infer_cells rest True ?s = Inr (c', s')" by simp
      from "2.IH"(1)[OF cv True cm c1 this] have "advances ?s s'" .
      moreover have "advances s ?s" using cv True by (simp add: advances_grid_set)
      ultimately show ?thesis by (rule advances_trans[rotated])
    qed
  qed
qed

lemma sweep_cases:
  assumes "sweep s = Inr f"
  obtains
    (rows) s1 where "update_rows [0..<height s] False s = Inr (Failed s1)" "f = Failed s1"
  | (cols) c1 s1 s2 where "update_rows [0..<height s] False s = Inr (Going c1 s1)"
      "update_cols [0..<width s1] c1 s1 = Inr (Failed s2)" "f = Failed s2"
  | (cells) c1 s1 c2 s2 c3 s3 where "update_rows [0..<height s] False s = Inr (Going c1 s1)"
      "update_cols [0..<width s1] c1 s1 = Inr (Going c2 s2)"
      "infer_cells (List.product [0..<height s2] [0..<width s2]) c2 s2 = Inr (c3, s3)"
      "f = Going c3 s3"
  using assms by (auto simp: sweep_def split: sum.splits flow.splits)

lemma sweep_advances: "sweep s = Inr f \<Longrightarrow> advances s (flow_state f)"
proof (erule sweep_cases)
  fix s1 assume "update_rows [0..<height s] False s = Inr (Failed s1)" "f = Failed s1"
  then show ?thesis using update_rows_advances by fastforce
next
  fix c1 s1 s2
  assume "update_rows [0..<height s] False s = Inr (Going c1 s1)"
    "update_cols [0..<width s1] c1 s1 = Inr (Failed s2)" "f = Failed s2"
  then show ?thesis
    using update_rows_advances update_cols_advances advances_trans by fastforce
next
  fix c1 s1 c2 s2 c3 s3
  assume "update_rows [0..<height s] False s = Inr (Going c1 s1)"
    "update_cols [0..<width s1] c1 s1 = Inr (Going c2 s2)"
    "infer_cells (List.product [0..<height s2] [0..<width s2]) c2 s2 = Inr (c3, s3)"
    "f = Going c3 s3"
  then have "advances s s1" "advances s1 s2" "advances s2 s3" "flow_state f = s3"
    using update_rows_advances update_cols_advances infer_cells_advances by fastforce+
  then show ?thesis by (metis advances_trans)
qed

lemma update_domains_advances: "update_domains s = Inr (b, s') \<Longrightarrow> advances s s'"
proof (induction s rule: update_domains.induct)
  case (1 s)
  from "1.prems" obtain f where f: "sweep s = Inr f"
    by (subst (asm) update_domains.simps) (auto split: sum.splits)
  from sweep_advances[OF f] have a: "advances s (flow_state f)" .
  show ?case
  proof (cases f)
    case (Failed s1)
    with f "1.prems" a show ?thesis by (subst (asm) update_domains.simps) auto
  next
    case (Going c s1)
    show ?thesis
    proof (cases c)
      case True
      with Going f "1.prems" have "update_domains s1 = Inr (b, s')"
        by (subst (asm) update_domains.simps) auto
      from "1.IH"[OF f Going True this] a Going show ?thesis
        by (auto intro: advances_trans)
    next
      case False
      with Going f "1.prems" a show ?thesis by (subst (asm) update_domains.simps) auto
    qed
  qed
qed

lemma well_formed_advances: "well_formed s \<Longrightarrow> advances s s' \<Longrightarrow> well_formed s'"
proof -
  assume w: "well_formed s" and a: "advances s s'"
  from a have n: "narrowed s s'" and r: "refined (grid s) (grid s')" by (simp_all add: advances_def)
  have g: "length (grid s') = height s'" using w n r by (simp add: well_formed_def narrowed_def refined_def)
  have rows: "\<forall>row\<in>set (grid s'). length row = width s'"
  proof
    fix row assume "row \<in> set (grid s')"
    then obtain i where i: "i < length (grid s')" "row = grid s' ! i" by (auto simp: in_set_conv_nth)
    with r have "i < length (grid s)" "length row = length (grid s ! i)" by (simp_all add: refined_def)
    with w n show "length row = width s'" by (simp add: well_formed_def narrowed_def)
  qed
  have rd: "\<forall>D\<in>set (row_domains s'). finite D \<and> (\<forall>p\<in>D. length p = width s')"
  proof
    fix D assume "D \<in> set (row_domains s')"
    then obtain i where i: "i < length (row_domains s')" "D = row_domains s' ! i" by (auto simp: in_set_conv_nth)
    with n have il: "i < length (row_domains s)" and sub: "D \<subseteq> row_domains s ! i" by (simp_all add: narrowed_def)
    from il w nth_mem[OF il] have "finite (row_domains s ! i)" "\<forall>p\<in>row_domains s ! i. length p = width s"
      by (auto simp: well_formed_def)
    with sub n show "finite D \<and> (\<forall>p\<in>D. length p = width s')"
      by (auto simp: narrowed_def intro: finite_subset)
  qed
  have cd: "\<forall>D\<in>set (col_domains s'). finite D \<and> (\<forall>p\<in>D. length p = height s')"
  proof
    fix D assume "D \<in> set (col_domains s')"
    then obtain i where i: "i < length (col_domains s')" "D = col_domains s' ! i" by (auto simp: in_set_conv_nth)
    with n have il: "i < length (col_domains s)" and sub: "D \<subseteq> col_domains s ! i" by (simp_all add: narrowed_def)
    from il w nth_mem[OF il] have "finite (col_domains s ! i)" "\<forall>p\<in>col_domains s ! i. length p = height s"
      by (auto simp: well_formed_def)
    with sub n show "finite D \<and> (\<forall>p\<in>D. length p = height s')"
      by (auto simp: narrowed_def intro: finite_subset)
  qed
  from g rows rd cd w n show ?thesis by (simp add: well_formed_def narrowed_def)
qed

section \<open>Propagation returns on well-formed states\<close>

lemma well_formed_cell:
  "well_formed s \<Longrightarrow> i < height s \<Longrightarrow> j < width s \<Longrightarrow> grid_get (grid s) i j = Inr (grid s ! i ! j)"
  by (auto simp: well_formed_def grid_get_Inr)

lemma well_formed_row_domain:
  "well_formed s \<Longrightarrow> i < height s \<Longrightarrow>
   get (row_domains s) i = Inr (row_domains s ! i) \<and> finite (row_domains s ! i) \<and>
   (\<forall>p\<in>row_domains s ! i. length p = width s)"
  using nth_mem[of i "row_domains s"] by (auto simp: well_formed_def get_def)

lemma well_formed_col_domain:
  "well_formed s \<Longrightarrow> j < width s \<Longrightarrow>
   get (col_domains s) j = Inr (col_domains s ! j) \<and> finite (col_domains s ! j) \<and>
   (\<forall>p\<in>col_domains s ! j. length p = height s)"
  using nth_mem[of j "col_domains s"] by (auto simp: well_formed_def get_def)

lemma valid_total: "\<forall>m<length p. \<not> isl (cell (k + m)) \<Longrightarrow> \<not> isl (valid cell k p)"
proof (induction p arbitrary: k)
  case Nil
  then show ?case by simp
next
  case (Cons v p)
  from Cons.prems have "\<not> isl (cell k)" by force
  moreover have "\<forall>m<length p. \<not> isl (cell (Suc k + m))"
    using Cons.prems by force
  then have "\<not> isl (valid cell (Suc k) p)" by (rule Cons.IH)
  ultimately show ?case by (auto split: sum.splits)
qed

lemma row_check_total:
  "well_formed s \<Longrightarrow> i < height s \<Longrightarrow> length p = width s \<Longrightarrow>
   \<not> isl (valid (\<lambda>j. grid_get (grid s) i j) 0 p)"
  by (rule valid_total) (simp add: well_formed_cell)

lemma col_check_total:
  "well_formed s \<Longrightarrow> j < width s \<Longrightarrow> length p = height s \<Longrightarrow>
   \<not> isl (valid (\<lambda>i. grid_get (grid s) i j) 0 p)"
  by (rule valid_total) (simp add: well_formed_cell)

lemma filter_domain_total: "\<forall>p\<in>D. \<not> isl (ok p) \<Longrightarrow> \<exists>N. filter_domain ok D = Inr N"
  by (simp add: filter_domain_def)

lemma advances_row_update:
  "i < length (row_domains s) \<Longrightarrow> N \<subseteq> row_domains s ! i \<Longrightarrow>
   advances s (s\<lparr>row_domains := (row_domains s)[i := N]\<rparr>)"
  by (simp add: advances_def refined_refl narrowed_row_update)

lemma advances_col_update:
  "j < length (col_domains s) \<Longrightarrow> N \<subseteq> col_domains s ! j \<Longrightarrow>
   advances s (s\<lparr>col_domains := (col_domains s)[j := N]\<rparr>)"
  by (simp add: advances_def refined_refl narrowed_col_update)

lemma update_rows_total:
  "well_formed s \<Longrightarrow> \<forall>i\<in>set is. i < height s \<Longrightarrow> \<exists>f. update_rows is c s = Inr f"
proof (induction "is" arbitrary: c s)
  case Nil
  then show ?case by simp
next
  case (Cons k rest)
  let ?D = "row_domains s ! k"
  from Cons.prems have k: "k < height s" by simp
  from well_formed_row_domain[OF Cons.prems(1) k]
  have D: "get (row_domains s) k = Inr ?D" and len: "\<forall>p\<in>?D. length p = width s" by simp_all
  have "\<forall>p\<in>?D. \<not> isl (valid (\<lambda>j. grid_get (grid s) k j) 0 p)"
    using row_check_total[OF Cons.prems(1) k] len by blast
  from filter_domain_total[OF this] obtain N
    where N: "filter_domain (valid (\<lambda>j. grid_get (grid s) k j) 0) ?D = Inr N" ..
  let ?s = "s\<lparr>row_domains := (row_domains s)[k := N]\<rparr>"
  have "advances s ?s"
    using D filter_domain_subset[OF N] by (intro advances_row_update) (simp_all add: get_Inr)
  with Cons.prems(1) have "well_formed ?s" by (rule well_formed_advances)
  moreover have "\<forall>i\<in>set rest. i < height ?s" using Cons.prems(2) by simp
  ultimately have 1: "\<exists>f. update_rows rest True ?s = Inr f" by (rule Cons.IH)
  have 2: "\<exists>f. update_rows rest c s = Inr f" using Cons.prems by (intro Cons.IH) simp_all
  from 1 2 D N show ?case by auto
qed

lemma update_cols_total:
  "well_formed s \<Longrightarrow> \<forall>j\<in>set js. j < width s \<Longrightarrow> \<exists>f. update_cols js c s = Inr f"
proof (induction js arbitrary: c s)
  case Nil
  then show ?case by simp
next
  case (Cons k rest)
  let ?D = "col_domains s ! k"
  from Cons.prems have k: "k < width s" by simp
  from well_formed_col_domain[OF Cons.prems(1) k]
  have D: "get (col_domains s) k = Inr ?D" and len: "\<forall>p\<in>?D. length p = height s" by simp_all
  have "\<forall>p\<in>?D. \<not> isl (valid (\<lambda>i. grid_get (grid s) i k) 0 p)"
    using col_check_total[OF Cons.prems(1) k] len by blast
  from filter_domain_total[OF this] obtain N
    where N: "filter_domain (valid (\<lambda>i. grid_get (grid s) i k) 0) ?D = Inr N" ..
  let ?s = "s\<lparr>col_domains := (col_domains s)[k := N]\<rparr>"
  have "advances s ?s"
    using D filter_domain_subset[OF N] by (intro advances_col_update) (simp_all add: get_Inr)
  with Cons.prems(1) have "well_formed ?s" by (rule well_formed_advances)
  moreover have "\<forall>j\<in>set rest. j < width ?s" using Cons.prems(2) by simp
  ultimately have 1: "\<exists>f. update_cols rest True ?s = Inr f" by (rule Cons.IH)
  have 2: "\<exists>f. update_cols rest c s = Inr f" using Cons.prems by (intro Cons.IH) simp_all
  from 1 2 D N show ?case by auto
qed

lemma common_values_total:
  "well_formed s \<Longrightarrow> i < height s \<Longrightarrow> j < width s \<Longrightarrow>
   common_values s i j = Inr ((\<lambda>p. p ! j) ` (row_domains s ! i) \<inter> (\<lambda>p. p ! i) ` (col_domains s ! j))"
  using well_formed_row_domain[of s i] well_formed_col_domain[of s j]
  by (auto simp: common_values_def values_at_def)

lemma infer_cells_total:
  "well_formed s \<Longrightarrow> \<forall>(i, j)\<in>set cells. i < height s \<and> j < width s \<Longrightarrow>
   \<exists>r. infer_cells cells c s = Inr r"
proof (induction cells c s rule: infer_cells.induct)
  case (1 changed s)
  then show ?case by simp
next
  case (2 i j rest changed s)
  from "2.prems" have ij: "i < height s" "j < width s" by simp_all
  note cell = well_formed_cell[OF "2.prems"(1) ij]
  note cm = common_values_total[OF "2.prems"(1) ij]
  let ?common = "(\<lambda>p. p ! j) ` (row_domains s ! i) \<inter> (\<lambda>p. p ! i) ` (col_domains s ! j)"
  let ?s = "s\<lparr>grid := grid_set (grid s) i j (Some (Min ?common))\<rparr>"
  show ?case
  proof (cases "grid s ! i ! j = None")
    case False
    with cell "2.prems" "2.IH"(3)[OF cell] show ?thesis by auto
  next
    case True
    show ?thesis
    proof (cases "card ?common = 1")
      case False
      with True cell cm "2.prems" "2.IH"(2)[OF cell _ cm] show ?thesis by auto
    next
      case c1: True
      have "advances s ?s" using cell True by (simp add: advances_grid_set)
      with "2.prems"(1) have "well_formed ?s" by (rule well_formed_advances)
      moreover have "\<forall>(i, j)\<in>set rest. i < height ?s \<and> j < width ?s" using "2.prems"(2) by simp
      ultimately have "\<exists>r. infer_cells rest True ?s = Inr r"
        using "2.IH"(1)[OF cell _ cm c1] True by simp
      with True cell cm c1 show ?thesis by simp
    qed
  qed
qed

lemma sweep_total: "well_formed s \<Longrightarrow> \<exists>f. sweep s = Inr f"
proof -
  assume w: "well_formed s"
  from update_rows_total[OF w, of "[0..<height s]" False] obtain f1
    where f1: "update_rows [0..<height s] False s = Inr f1" by auto
  show ?thesis
  proof (cases f1)
    case (Failed s1)
    with f1 show ?thesis by (simp add: sweep_def)
  next
    case (Going c1 s1)
    from update_rows_advances[OF f1] w Going have w1: "well_formed s1"
      by (auto intro: well_formed_advances)
    from update_cols_total[OF w1, of "[0..<width s1]" c1] obtain f2
      where f2: "update_cols [0..<width s1] c1 s1 = Inr f2" by auto
    show ?thesis
    proof (cases f2)
      case (Failed s2)
      with f1 Going f2 show ?thesis by (simp add: sweep_def)
    next
      case g2: (Going c2 s2)
      from update_cols_advances[OF f2] w1 g2 have w2: "well_formed s2"
        by (auto intro: well_formed_advances)
      from infer_cells_total[OF w2, of "List.product [0..<height s2] [0..<width s2]" c2]
      obtain r where "infer_cells (List.product [0..<height s2] [0..<width s2]) c2 s2 = Inr r"
        by auto
      with f1 Going f2 g2 show ?thesis by (cases r) (simp add: sweep_def)
    qed
  qed
qed

lemma update_domains_total: "well_formed s \<Longrightarrow> \<exists>b s'. update_domains s = Inr (b, s')"
proof (induction s rule: update_domains.induct)
  case (1 s)
  from sweep_total[OF "1.prems"] obtain f where f: "sweep s = Inr f" ..
  show ?case
  proof (cases f)
    case (Failed s1)
    with f show ?thesis by (subst update_domains.simps) auto
  next
    case (Going c s1)
    show ?thesis
    proof (cases c)
      case True
      from sweep_advances[OF f] "1.prems" Going have "well_formed s1"
        by (auto intro: well_formed_advances)
      from "1.IH"[OF f Going True this] f Going True show ?thesis
        by (subst update_domains.simps) auto
    next
      case False
      with f Going show ?thesis by (subst update_domains.simps) auto
    qed
  qed
qed

section \<open>Propagation at a fixpoint\<close>

lemma update_rows_unchanged:
  "update_rows is c s = Inr (Going False s') \<Longrightarrow> s' = s \<and> \<not> c"
proof (induction "is" arbitrary: c s)
  case Nil
  then show ?case by simp
next
  case (Cons k rest)
  then show ?case by (fastforce split: sum.splits if_splits)
qed

lemma update_cols_unchanged:
  "update_cols js c s = Inr (Going False s') \<Longrightarrow> s' = s \<and> \<not> c"
proof (induction js arbitrary: c s)
  case Nil
  then show ?case by simp
next
  case (Cons k rest)
  then show ?case by (fastforce split: sum.splits if_splits)
qed

lemma infer_cells_flag: "infer_cells cells True s = Inr (c', s') \<Longrightarrow> c'"
  by (induction cells "True" s rule: infer_cells.induct) (auto split: sum.splits if_splits)

lemma infer_cells_quiet:
  "infer_cells cells c s = Inr (False, s') \<Longrightarrow> s' = s \<and> \<not> c"
proof (induction cells c s rule: infer_cells.induct)
  case (1 changed s)
  then show ?case by simp
next
  case (2 i j rest changed s)
  then show ?case
    by (auto split: sum.splits if_splits dest: infer_cells_flag)
qed

lemma sweep_quiet: "sweep s = Inr (Going False s') \<Longrightarrow> s' = s"
  by (auto simp: sweep_Going dest!: infer_cells_quiet update_cols_unchanged update_rows_unchanged)

lemma update_domains_fixpoint:
  "update_domains s = Inr (True, s') \<Longrightarrow> sweep s' = Inr (Going False s')"
proof (induction s rule: update_domains.induct)
  case (1 s)
  from "1.prems" obtain c s1 where f: "sweep s = Inr (Going c s1)"
    by (subst (asm) update_domains.simps) (auto split: sum.splits flow.splits)
  show ?case
  proof (cases c)
    case True
    with f "1.prems" have "update_domains s1 = Inr (True, s')"
      by (subst (asm) update_domains.simps) simp
    from "1.IH"[OF f refl True this] show ?thesis .
  next
    case False
    with f "1.prems" have "s' = s1" by (subst (asm) update_domains.simps) simp
    with f False sweep_quiet[of s s1] show ?thesis by simp
  qed
qed

lemma update_domains_settled:
  "sweep s = Inr (Going False s) \<Longrightarrow> update_domains s = Inr (True, s)"
  by (subst update_domains.simps) simp

text \<open>
  C7. On a well-formed state \<open>_update_domains\<close> returns, and between entry and exit
  every row and column domain has only lost possibilities and every cell has either
  kept its value or gone from unknown to fixed. The same holds for each of the three
  loops of a pass, run from any state over any list of indices, hence up to any point
  of the call.
\<close>

theorem update_domains_monotonic:
  "well_formed s \<Longrightarrow>
   (\<exists>b s'. update_domains s = Inr (b, s') \<and>
      (\<forall>i<height s. row_domains s' ! i \<subseteq> row_domains s ! i) \<and>
      (\<forall>j<width s. col_domains s' ! j \<subseteq> col_domains s ! j) \<and>
      (\<forall>i<height s. \<forall>j<width s.
          grid s' ! i ! j = grid s ! i ! j \<or> (grid s ! i ! j = None \<and> grid s' ! i ! j \<noteq> None)))
   \<and> (\<forall>is c f. update_rows is c s = Inr f \<longrightarrow> advances s (flow_state f))
   \<and> (\<forall>js c f. update_cols js c s = Inr f \<longrightarrow> advances s (flow_state f))
   \<and> (\<forall>cells c c' s'. infer_cells cells c s = Inr (c', s') \<longrightarrow> advances s s')"
proof -
  assume w: "well_formed s"
  from update_domains_total[OF w] obtain b s' where u: "update_domains s = Inr (b, s')" by blast
  from update_domains_advances[OF u] have n: "narrowed s s'" and r: "refined (grid s) (grid s')"
    by (simp_all add: advances_def)
  have rows: "\<forall>i<height s. row_domains s' ! i \<subseteq> row_domains s ! i"
    using n w by (simp add: narrowed_def well_formed_def)
  have cols: "\<forall>j<width s. col_domains s' ! j \<subseteq> col_domains s ! j"
    using n w by (simp add: narrowed_def well_formed_def)
  have cells: "\<forall>i<height s. \<forall>j<width s.
      grid s' ! i ! j = grid s ! i ! j \<or> (grid s ! i ! j = None \<and> grid s' ! i ! j \<noteq> None)"
  proof (intro allI impI)
    fix i j assume i: "i < height s" and j: "j < width s"
    from w i j have "i < length (grid s)" "j < length (grid s ! i)"
      by (auto simp: well_formed_def)
    with r show "grid s' ! i ! j = grid s ! i ! j \<or> (grid s ! i ! j = None \<and> grid s' ! i ! j \<noteq> None)"
      by (simp add: refined_def)
  qed
  from u rows cols cells show ?thesis
    using update_rows_advances update_cols_advances infer_cells_advances by blast
qed

theorem update_domains_monotonic_witness:
  "well_formed example_2x2 \<and> update_domains example_2x2 = Inr (True, example_2x2_solved) \<and>
   row_domains example_2x2_solved ! 1 \<subseteq> row_domains example_2x2 ! 1 \<and>
   row_domains example_2x2 ! 1 = {[1, 0], [0, 1]} \<and> row_domains example_2x2_solved ! 1 = {[1, 0]} \<and>
   grid example_2x2 ! 1 ! 1 = None \<and> grid example_2x2_solved ! 1 ! 1 = Some 0"
proof -
  have w: "well_formed example_2x2" by (simp add: well_formed_def example_2x2_def)
  have u: "update_domains example_2x2 = Inr (True, example_2x2_solved)" by code_simp
  have h: "1 < height example_2x2" by (simp add: example_2x2_def)
  from update_domains_monotonic[OF w] u h
  have "row_domains example_2x2_solved ! 1 \<subseteq> row_domains example_2x2 ! 1" by auto
  moreover have "row_domains example_2x2 ! 1 = {[1, 0], [0, 1]}"
    "row_domains example_2x2_solved ! 1 = {[1, 0]}"
    "grid example_2x2 ! 1 ! 1 = None" "grid example_2x2_solved ! 1 ! 1 = Some 0"
    by (simp_all add: example_2x2_def example_2x2_solved_def)
  ultimately show ?thesis using w u by simp
qed

text \<open>
  C8. When \<open>_update_domains\<close> has returned \<open>True\<close>, calling it again on the state it
  left returns \<open>True\<close> and leaves that state, grid and domains, as it is.
\<close>

theorem update_domains_idempotent:
  "update_domains s = Inr (True, s') \<Longrightarrow> update_domains s' = Inr (True, s')"
  by (rule update_domains_settled) (rule update_domains_fixpoint)

theorem update_domains_idempotent_witness:
  "update_domains example_2x2 = Inr (True, example_2x2_solved) \<and>
   update_domains example_2x2_solved = Inr (True, example_2x2_solved)"
proof -
  have u: "update_domains example_2x2 = Inr (True, example_2x2_solved)" by code_simp
  from update_domains_idempotent[OF u] u show ?thesis by simp
qed

section \<open>Search: what every call of solve preserves\<close>

lemma well_formed_grid_set:
  "well_formed s \<Longrightarrow> well_formed (s\<lparr>grid := grid_set (grid s) i j v\<rparr>)"
proof -
  assume w: "well_formed s"
  have "length row = width s" if "row \<in> set (grid_set (grid s) i j v)" for row
  proof (cases "i < length (grid s)")
    case True
    from that have "row \<in> insert ((grid s ! i)[j := v]) (set (grid s))"
      unfolding grid_set_def using set_update_subset_insert by fastforce
    with w True show ?thesis by (auto simp: well_formed_def)
  next
    case False
    with that w show ?thesis by (simp add: grid_set_def well_formed_def list_update_beyond not_less)
  qed
  with w show ?thesis by (simp add: well_formed_def grid_set_def)
qed

lemma narrowed_grid_left: "narrowed (s\<lparr>grid := g\<rparr>) s' \<longleftrightarrow> narrowed s s'"
  by (simp add: narrowed_def)


lemma update_domains_narrowed: "update_domains s = Inr (b, s') \<Longrightarrow> narrowed s s'"
  by (drule update_domains_advances) (simp add: advances_def)

lemma update_domains_well_formed:
  "update_domains s = Inr (b, s') \<Longrightarrow> well_formed s \<Longrightarrow> well_formed s'"
  by (drule update_domains_advances) (rule well_formed_advances)

lemma solve_Suc_cases:
  assumes "solve (Suc d) s = Inr (b, s')"
  obtains
    (contradiction) "update_domains s = Inr (False, s')" "\<not> b"
  | (solved) "update_domains s = Inr (True, s')" "b"
      "select_cell (List.product [0..<height s'] [0..<width s']) None s' = Inr None"
  | (branch) s1 n i j vals where "update_domains s = Inr (True, s1)"
      "select_cell (List.product [0..<height s1] [0..<width s1]) None s1 = Inr (Some (n, (i, j), vals))"
      "try_values d i j (sorted_list_of_set vals) s1 = Inr (b, s')"
  using assms by (auto split: sum.splits bool.splits option.splits prod.splits)

lemma try_values_Cons_cases:
  assumes "try_values d i j (v # rest) s = Inr (b, s')"
  obtains
    (found) "solve d (s\<lparr>grid := grid_set (grid s) i j (Some v)\<rparr>) = Inr (True, s')" "b"
  | (retry) s2 where "solve d (s\<lparr>grid := grid_set (grid s) i j (Some v)\<rparr>) = Inr (False, s2)"
      "try_values d i j rest (s2\<lparr>grid := grid_set (grid s2) i j None\<rparr>) = Inr (b, s')"
  using assms by (auto split: sum.splits bool.splits prod.splits)

lemma try_values_keeps:
  assumes S: "\<And>t b' t'. solve d t = Inr (b', t') \<Longrightarrow> narrowed t t' \<and> (well_formed t \<longrightarrow> well_formed t')"
  shows "try_values d i j vs s = Inr (b, s') \<Longrightarrow> narrowed s s' \<and> (well_formed s \<longrightarrow> well_formed s')"
proof (induction vs arbitrary: s)
  case Nil
  then show ?case by (simp add: narrowed_refl)
next
  case (Cons v rest)
  let ?t = "s\<lparr>grid := grid_set (grid s) i j (Some v)\<rparr>"
  from Cons.prems show ?case
  proof (cases rule: try_values_Cons_cases)
    case found
    from S[OF found(1)] show ?thesis
      by (auto simp: narrowed_grid_left well_formed_grid_set)
  next
    case (retry s2)
    let ?u = "s2\<lparr>grid := grid_set (grid s2) i j None\<rparr>"
    from S[OF retry(1)] have 1: "narrowed s s2" "well_formed s \<longrightarrow> well_formed s2"
      by (auto simp: narrowed_grid_left well_formed_grid_set)
    from Cons.IH[OF retry(2)] have 2: "narrowed s2 s'" "well_formed s2 \<longrightarrow> well_formed s'"
      by (auto simp: narrowed_grid_left well_formed_grid_set)
    from 1 2 show ?thesis by (auto intro: narrowed_trans)
  qed
qed

lemma solve_keeps:
  "solve d s = Inr (b, s') \<Longrightarrow> narrowed s s' \<and> (well_formed s \<longrightarrow> well_formed s')"
proof (induction d arbitrary: s b s')
  case 0
  then show ?case by simp
next
  case (Suc d)
  from Suc.prems show ?case
  proof (cases rule: solve_Suc_cases)
    case contradiction
    then show ?thesis by (auto dest: update_domains_narrowed update_domains_well_formed)
  next
    case solved
    then show ?thesis by (auto dest: update_domains_narrowed update_domains_well_formed)
  next
    case (branch s1 n i j vals)
    from try_values_keeps[OF Suc.IH branch(3)]
    have "narrowed s1 s'" "well_formed s1 \<longrightarrow> well_formed s'" by simp_all
    with branch(1) show ?thesis
      by (auto dest: update_domains_narrowed update_domains_well_formed intro: narrowed_trans)
  qed
qed

lemma try_values_settled:
  assumes S: "\<And>t t'. solve d t = Inr (True, t') \<Longrightarrow> settled t'"
  shows "try_values d i j vs s = Inr (True, s') \<Longrightarrow> settled s'"
proof (induction vs arbitrary: s)
  case Nil
  then show ?case by simp
next
  case (Cons v rest)
  from Cons.prems show ?case
  proof (cases rule: try_values_Cons_cases)
    case found
    from found(1) show ?thesis by (rule S)
  next
    case (retry s2)
    from retry(2) show ?thesis by (rule Cons.IH)
  qed
qed

lemma solve_settled: "solve d s = Inr (True, s') \<Longrightarrow> settled s'"
proof (induction d arbitrary: s s')
  case 0
  then show ?case by simp
next
  case (Suc d)
  from Suc.prems show ?case
  proof (cases rule: solve_Suc_cases)
    case contradiction
    then show ?thesis by simp
  next
    case solved
    then show ?thesis by (simp add: settled_def update_domains_fixpoint)
  next
    case (branch s1 n i j vals)
    from try_values_settled[OF Suc.IH branch(3)] show ?thesis .
  qed
qed

section \<open>Construction, and domains across the search\<close>

lemma extend_all_member:
  "extend_all rs = Inr ys \<Longrightarrow> y \<in> set ys \<Longrightarrow> \<exists>xs. Inr xs \<in> set rs \<and> y \<in> set xs"
proof (induction rs arbitrary: ys)
  case Nil
  then show ?case by simp
next
  case (Cons r rs)
  then show ?case by (fastforce split: sum.splits)
qed

lemma generate_positions_length:
  "generate_positions len pos_list pos blocks = Inr ls \<Longrightarrow> l \<in> set ls \<Longrightarrow> length l = len"
proof (induction blocks arbitrary: pos_list pos ls)
  case Nil
  then show ?case by (auto split: sum.splits dest: paint_length)
next
  case (Cons block rest)
  let ?max = "int len - sum_list (block # rest) - (int (length (block # rest)) - 1)"
  let ?f = "\<lambda>start. if list_all (\<lambda>p. fst p + snd p \<le> start) pos_list
                then generate_positions len (pos_list @ [(start, block)]) (start + block + 1) rest
                else Inr []"
  from Cons.prems(1) have "extend_all (map ?f [pos..?max]) = Inr ls" by (simp add: Let_def)
  from extend_all_member[OF this Cons.prems(2)] obtain xs start
    where "?f start = Inr xs" and l: "l \<in> set xs" unfolding set_map by force
  then have "generate_positions len (pos_list @ [(start, block)]) (start + block + 1) rest = Inr xs"
    using l by (auto split: if_splits)
  from Cons.IH[OF this l] show ?case .
qed

lemma generate_line_possibilities_length:
  "generate_line_possibilities blocks len = Inr ls \<Longrightarrow> l \<in> set ls \<Longrightarrow> length l = len"
  by (auto simp: generate_line_possibilities_def Let_def split: if_splits
      dest: generate_positions_length)

lemma generate_domains_nth:
  "generate_domains cs len = Inr ds \<Longrightarrow>
   length ds = length cs \<and>
   (\<forall>i<length cs. \<exists>ls. generate_line_possibilities (cs ! i) len = Inr ls \<and> ds ! i = set ls)"
proof (induction cs arbitrary: ds)
  case Nil
  then show ?case by simp
next
  case (Cons blocks rest)
  from Cons.prems obtain ls ds' where ls: "generate_line_possibilities blocks len = Inr ls"
    and ds': "generate_domains rest len = Inr ds'" and ds: "ds = set ls # ds'"
    by (auto split: sum.splits)
  from Cons.IH[OF ds'] ls ds show ?case
    by (auto simp: nth_Cons split: nat.splits)
qed

lemma Nono_Solver_state:
  "Nono_Solver rows cols = Inr s \<Longrightarrow>
   height s = length rows \<and> width s = length cols \<and>
   row_constraints s = rows \<and> col_constraints s = cols \<and>
   grid s = replicate (length rows) (replicate (length cols) None) \<and>
   generate_domains rows (length cols) = Inr (row_domains s) \<and>
   generate_domains cols (length rows) = Inr (col_domains s)"
  by (auto simp: Nono_Solver_def Let_def split: sum.splits)

lemma Nono_Solver_well_formed: "Nono_Solver rows cols = Inr s \<Longrightarrow> well_formed s"
proof -
  assume a: "Nono_Solver rows cols = Inr s"
  note st = Nono_Solver_state[OF a]
  from st have r: "generate_domains rows (length cols) = Inr (row_domains s)"
    and c: "generate_domains cols (length rows) = Inr (col_domains s)" by simp_all
  have "finite D \<and> (\<forall>p\<in>D. length p = width s)" if "D \<in> set (row_domains s)" for D
  proof -
    from that obtain i where "i < length (row_domains s)" "D = row_domains s ! i"
      by (auto simp: in_set_conv_nth)
    with generate_domains_nth[OF r] obtain ls
      where "generate_line_possibilities (rows ! i) (length cols) = Inr ls" "D = set ls" by auto
    with st show ?thesis by (auto dest: generate_line_possibilities_length)
  qed
  moreover have "finite D \<and> (\<forall>p\<in>D. length p = height s)" if "D \<in> set (col_domains s)" for D
  proof -
    from that obtain i where "i < length (col_domains s)" "D = col_domains s ! i"
      by (auto simp: in_set_conv_nth)
    with generate_domains_nth[OF c] obtain ls
      where "generate_line_possibilities (cols ! i) (length rows) = Inr ls" "D = set ls" by auto
    with st show ?thesis by (auto dest: generate_line_possibilities_length)
  qed
  ultimately show ?thesis
    using st generate_domains_nth[OF r] generate_domains_nth[OF c]
    by (simp add: well_formed_def)
qed





section \<open>A grid that solve accepts satisfies the clues\<close>

lemma select_cell_None:
  "select_cell cells best s = Inr None \<Longrightarrow>
   best = None \<and> (\<forall>(i, j)\<in>set cells. \<exists>v. grid_get (grid s) i j = Inr (Some v))"
proof (induction cells best s rule: select_cell.induct)
  case (1 best s)
  then show ?case by simp
next
  case (2 i j rest best s)
  from "2.prems" obtain c where c: "grid_get (grid s) i j = Inr c"
    by (auto split: sum.splits)
  show ?case
  proof (cases "c = None")
    case False
    with c "2.prems" have "select_cell rest best s = Inr None" by simp
    from "2.IH"(3)[OF c False this] c False show ?thesis by auto
  next
    case True
    with c "2.prems" obtain common where cm: "common_values s i j = Inr common"
      by (auto split: sum.splits)
    show ?thesis
    proof (cases "case best of None \<Rightarrow> True | Some (min_options, _) \<Rightarrow> card common < min_options")
      case t: True
      with True c cm "2.prems"
      have "select_cell rest (Some (card common, (i, j), common)) s = Inr None" by simp
      from "2.IH"(1)[OF c True cm t this] show ?thesis by simp
    next
      case f: False
      with True c cm "2.prems" have "select_cell rest best s = Inr None" by simp
      from "2.IH"(2)[OF c True cm f this] f show ?thesis by simp
    qed
  qed
qed

lemma valid_True_nth:
  "valid cell k p = Inr True \<Longrightarrow> m < length p \<Longrightarrow>
   cell (k + m) = Inr None \<or> cell (k + m) = Inr (Some (p ! m))"
proof (induction p arbitrary: k m)
  case Nil
  then show ?case by simp
next
  case (Cons v p)
  from Cons.prems(1) obtain c where c: "cell k = Inr c" and ok: "c = None \<or> c = Some v"
    and rest: "valid cell (Suc k) p = Inr True"
    by (auto split: sum.splits if_splits)
  show ?case
  proof (cases m)
    case 0
    with c ok show ?thesis by auto
  next
    case (Suc n)
    with Cons.prems(2) have "n < length p" by simp
    from Cons.IH[OF rest this] Suc show ?thesis by simp
  qed
qed

lemma settled_stable:
  assumes "settled s"
  shows "\<forall>i<height s. row_stable s i" and "\<forall>j<width s. col_stable s j"
proof -
  from assms have sw: "sweep s = Inr (Going False s)" by (simp add: settled_def)
  then obtain c1 s1 c2 s2 where
    r: "update_rows [0..<height s] False s = Inr (Going c1 s1)" and
    c: "update_cols [0..<width s1] c1 s1 = Inr (Going c2 s2)" and
    f: "infer_cells (List.product [0..<height s2] [0..<width s2]) c2 s2 = Inr (False, s)"
    by (auto simp: sweep_Going)
  from infer_cells_quiet[OF f] have s2: "s2 = s" and c2: "\<not> c2" by simp_all
  from update_cols_unchanged[of "[0..<width s1]" c1 s1 s2] c c2 have s1: "s1 = s" and c1: "\<not> c1"
    using s2 by simp_all
  from update_rows_makes_stable[OF r] s1 show "\<forall>i<height s. row_stable s i" by simp
  from update_cols_makes_stable[OF c] s1 s2 show "\<forall>j<width s. col_stable s j" by simp
qed

lemma settled_fixed:
  "settled s \<Longrightarrow> i < height s \<Longrightarrow> j < width s \<Longrightarrow> \<exists>v. grid_get (grid s) i j = Inr (Some v)"
proof -
  assume a: "settled s" and i: "i < height s" and j: "j < width s"
  then have "select_cell (List.product [0..<height s] [0..<width s]) None s = Inr None"
    by (simp add: settled_def)
  from select_cell_None[OF this] i j show ?thesis by auto
qed

lemma settled_row:
  assumes st: "settled s" and w: "well_formed s" and i: "i < height s"
  shows "None \<notin> set (grid s ! i) \<and> row_domains s ! i = {map the (grid s ! i)}"
proof -
  let ?row = "grid s ! i" and ?D = "row_domains s ! i"
  from w i have len: "length ?row = width s" by (auto simp: well_formed_def)
  have fixed: "\<exists>v. ?row ! j = Some v" if "j < width s" for j
  proof -
    from settled_fixed[OF st i that] obtain v where "grid_get (grid s) i j = Inr (Some v)" ..
    then have "?row ! j = Some v" by (simp add: grid_get_Inr)
    then show ?thesis ..
  qed
  have none: "None \<notin> set ?row"
  proof
    assume "None \<in> set ?row"
    then obtain j where "j < length ?row" "?row ! j = None" by (auto simp: in_set_conv_nth)
    with fixed[of j] len show False by simp
  qed
  from settled_stable(1)[OF st] i have rs: "row_stable s i" by simp
  then have ne: "?D \<noteq> {}"
    and fd: "filter_domain (valid (\<lambda>j. grid_get (grid s) i j) 0) ?D = Inr ?D"
    by (simp_all add: row_stable_def)
  have "p = map the ?row" if p: "p \<in> ?D" for p
  proof (rule nth_equalityI)
    from well_formed_row_domain[OF w i] p have lp: "length p = width s" by simp
    then show "length p = length (map the ?row)" using len by simp
    fix m assume m: "m < length p"
    from fd p have "valid (\<lambda>j. grid_get (grid s) i j) 0 p = Inr True"
      by (auto simp: filter_domain_Inr)
    from valid_True_nth[OF this m] fixed[of m] m lp len
    show "p ! m = map the ?row ! m" by (auto simp: grid_get_Inr)
  qed
  with ne have "?D = {map the ?row}" by auto
  with none show ?thesis by simp
qed

lemma settled_col:
  assumes st: "settled s" and w: "well_formed s" and j: "j < width s"
  shows "col_domains s ! j = {map (\<lambda>row. the (row ! j)) (grid s)}"
proof -
  let ?col = "map (\<lambda>row. the (row ! j)) (grid s)" and ?D = "col_domains s ! j"
  from w have len: "length (grid s) = height s" by (simp add: well_formed_def)
  have fixed: "\<exists>v. grid s ! i ! j = Some v" if "i < height s" for i
  proof -
    from settled_fixed[OF st that j] obtain v where "grid_get (grid s) i j = Inr (Some v)" ..
    then have "grid s ! i ! j = Some v" by (simp add: grid_get_Inr)
    then show ?thesis ..
  qed
  from settled_stable(2)[OF st] j have cs: "col_stable s j" by simp
  then have ne: "?D \<noteq> {}"
    and fd: "filter_domain (valid (\<lambda>i. grid_get (grid s) i j) 0) ?D = Inr ?D"
    by (simp_all add: col_stable_def)
  have "p = ?col" if p: "p \<in> ?D" for p
  proof (rule nth_equalityI)
    from well_formed_col_domain[OF w j] p have lp: "length p = height s" by simp
    then show "length p = length ?col" using len by simp
    fix m assume m: "m < length p"
    from fd p have "valid (\<lambda>i. grid_get (grid s) i j) 0 p = Inr True"
      by (auto simp: filter_domain_Inr)
    from valid_True_nth[OF this m] fixed[of m] m lp len
    show "p ! m = ?col ! m" by (auto simp: grid_get_Inr)
  qed
  with ne show ?thesis by auto
qed

lemma solve_lines:
  assumes c: "Nono_Solver rows cols = Inr s"
    and sv: "solve depth s = Inr (True, s')"
  shows "length (grid s') = length rows \<and>
     (\<forall>i<length rows. length (grid s' ! i) = length cols \<and> None \<notin> set (grid s' ! i) \<and>
        (\<exists>ls. generate_line_possibilities (rows ! i) (length cols) = Inr ls \<and>
              map the (grid s' ! i) \<in> set ls)) \<and>
     (\<forall>j<length cols. \<exists>ls. generate_line_possibilities (cols ! j) (length rows) = Inr ls \<and>
              map (\<lambda>row. the (row ! j)) (grid s') \<in> set ls)"
proof -
  note st = Nono_Solver_state[OF c]
  from solve_keeps[OF sv] Nono_Solver_well_formed[OF c]
  have n: "narrowed s s'" and w: "well_formed s'" by simp_all
  from solve_settled[OF sv] have se: "settled s'" .
  from n st have h: "height s' = length rows" and wd: "width s' = length cols"
    by (simp_all add: narrowed_def)
  from st have r: "generate_domains rows (length cols) = Inr (row_domains s)"
    and cd: "generate_domains cols (length rows) = Inr (col_domains s)" by simp_all
  have rows: "length (grid s' ! i) = length cols \<and> None \<notin> set (grid s' ! i) \<and>
        (\<exists>ls. generate_line_possibilities (rows ! i) (length cols) = Inr ls \<and>
              map the (grid s' ! i) \<in> set ls)" if i: "i < length rows" for i
  proof -
    from i h have i': "i < height s'" by simp
    from settled_row[OF se w i'] have none: "None \<notin> set (grid s' ! i)"
      and D: "row_domains s' ! i = {map the (grid s' ! i)}" by simp_all
    from generate_domains_nth[OF r] i obtain ls
      where ls: "generate_line_possibilities (rows ! i) (length cols) = Inr ls"
        and d0: "row_domains s ! i = set ls" by auto
    from n i generate_domains_nth[OF r] have "row_domains s' ! i \<subseteq> row_domains s ! i"
      by (simp add: narrowed_def)
    with D d0 have mem: "map the (grid s' ! i) \<in> set ls" by simp
    moreover from w i' wd have "length (grid s' ! i) = length cols" by (auto simp: well_formed_def)
    ultimately show ?thesis using none ls by simp
  qed
  have cols: "\<exists>ls. generate_line_possibilities (cols ! j) (length rows) = Inr ls \<and>
              map (\<lambda>row. the (row ! j)) (grid s') \<in> set ls" if j: "j < length cols" for j
  proof -
    from j wd have j': "j < width s'" by simp
    from settled_col[OF se w j'] have D: "col_domains s' ! j = {map (\<lambda>row. the (row ! j)) (grid s')}" .
    from generate_domains_nth[OF cd] j obtain ls
      where ls: "generate_line_possibilities (cols ! j) (length rows) = Inr ls"
        and d0: "col_domains s ! j = set ls" by auto
    from n j generate_domains_nth[OF cd] have "col_domains s' ! j \<subseteq> col_domains s ! j"
      by (simp add: narrowed_def)
    with D d0 have mem: "map (\<lambda>row. the (row ! j)) (grid s') \<in> set ls" by simp
    with ls show ?thesis by simp
  qed
  from w h rows cols show ?thesis by (simp add: well_formed_def)
qed

lemma generated_line_runs:
  assumes "generate_line_possibilities blocks len = Inr ls" and "l \<in> set ls"
  shows "((\<forall>b\<in>set blocks. 0 < b) \<longrightarrow> filled_runs l = blocks) \<and>
         (blocks = [0] \<longrightarrow> extract_clues l = [0])"
proof (intro conjI impI)
  assume "\<forall>b\<in>set blocks. 0 < b"
  from generate_line_possibilities_lines[OF this, of len] assms show "filled_runs l = blocks"
    by auto
next
  assume "blocks = [0]"
  with assms generate_blank_marker[of len] have "l = replicate len 0" by auto
  then show "extract_clues l = [0]" by (simp add: extract_clues_def filled_runs_zeros)
qed

text \<open>
  C2. When \<open>solve\<close> returns \<open>True\<close> on a puzzle the constructor built, the grid it
  leaves has the puzzle's dimensions and no unknown cell; for every row and every
  column whose clue is a sequence of positive block lengths, the lengths of the runs
  of 1 of that line, left to right, are the clue; and a line with the clue \<open>[0]\<close>, the
  extractor's mark for a blank line, is read back as \<open>[0]\<close> by the extractor.
\<close>

theorem solve_sound:
  "Nono_Solver rows cols = Inr s \<Longrightarrow> solve depth s = Inr (True, s') \<Longrightarrow>
   length (grid s') = length rows \<and>
   (\<forall>i<length rows. length (grid s' ! i) = length cols \<and> None \<notin> set (grid s' ! i) \<and>
      ((\<forall>b\<in>set (rows ! i). 0 < b) \<longrightarrow> filled_runs (map the (grid s' ! i)) = rows ! i) \<and>
      (rows ! i = [0] \<longrightarrow> extract_clues (map the (grid s' ! i)) = [0])) \<and>
   (\<forall>j<length cols.
      ((\<forall>b\<in>set (cols ! j). 0 < b) \<longrightarrow>
          filled_runs (map (\<lambda>row. the (row ! j)) (grid s')) = cols ! j) \<and>
      (cols ! j = [0] \<longrightarrow> extract_clues (map (\<lambda>row. the (row ! j)) (grid s')) = [0]))"
proof -
  assume c: "Nono_Solver rows cols = Inr s" and sv: "solve depth s = Inr (True, s')"
  note l = solve_lines[OF c sv]
  from l have len: "length (grid s') = length rows" by blast
  have rows: "length (grid s' ! i) = length cols \<and> None \<notin> set (grid s' ! i) \<and>
      ((\<forall>b\<in>set (rows ! i). 0 < b) \<longrightarrow> filled_runs (map the (grid s' ! i)) = rows ! i) \<and>
      (rows ! i = [0] \<longrightarrow> extract_clues (map the (grid s' ! i)) = [0])" if "i < length rows" for i
  proof -
    from l that obtain ls where "length (grid s' ! i) = length cols" "None \<notin> set (grid s' ! i)"
      "generate_line_possibilities (rows ! i) (length cols) = Inr ls" "map the (grid s' ! i) \<in> set ls"
      by blast
    with generated_line_runs[of "rows ! i" "length cols" ls "map the (grid s' ! i)"]
    show ?thesis by blast
  qed
  have cols: "((\<forall>b\<in>set (cols ! j). 0 < b) \<longrightarrow>
          filled_runs (map (\<lambda>row. the (row ! j)) (grid s')) = cols ! j) \<and>
      (cols ! j = [0] \<longrightarrow> extract_clues (map (\<lambda>row. the (row ! j)) (grid s')) = [0])"
    if "j < length cols" for j
  proof -
    from l that obtain ls where
      "generate_line_possibilities (cols ! j) (length rows) = Inr ls"
      "map (\<lambda>row. the (row ! j)) (grid s') \<in> set ls"
      by blast
    with generated_line_runs[of "cols ! j" "length rows" ls "map (\<lambda>row. the (row ! j)) (grid s')"]
    show ?thesis by blast
  qed
  from len rows cols show ?thesis by blast
qed

theorem solve_sound_witness:
  "Nono_Solver [[1], [1]] [[1], [1]] = Inr example_diagonal \<and>
   solve 3 example_diagonal = Inr (True, example_diagonal_solved) \<and>
   grid example_diagonal_solved = [[Some 0, Some 1], [Some 1, Some 0]] \<and>
   filled_runs (map the (grid example_diagonal_solved ! 0)) = [1] \<and>
   filled_runs (map the (grid example_diagonal_solved ! 1)) = [1] \<and>
   filled_runs (map (\<lambda>row. the (row ! 0)) (grid example_diagonal_solved)) = [1] \<and>
   filled_runs (map (\<lambda>row. the (row ! 1)) (grid example_diagonal_solved)) = [1]"
proof -
  have c: "Nono_Solver [[1], [1]] [[1], [1]] = Inr example_diagonal" by code_simp
  have u: "solve 3 example_diagonal = Inr (True, example_diagonal_solved)" by code_simp
  have g: "grid example_diagonal_solved = [[Some 0, Some 1], [Some 1, Some 0]]"
    by (simp add: example_diagonal_solved_def)
  note t = solve_sound[OF c u]
  from t have r: "\<forall>i<2. filled_runs (map the (grid example_diagonal_solved ! i)) = [[1], [1]] ! i"
    by (simp add: nth_Cons' del: solve.simps)
  from t have k: "\<forall>j<2. filled_runs (map (\<lambda>row. the (row ! j)) (grid example_diagonal_solved)) = [[1], [1]] ! j"
    by (simp add: nth_Cons' del: solve.simps)
  from r have "filled_runs (map the (grid example_diagonal_solved ! 0)) = [1]"
    "filled_runs (map the (grid example_diagonal_solved ! 1)) = [1]" by force+
  moreover from k have "filled_runs (map (\<lambda>row. the (row ! 0)) (grid example_diagonal_solved)) = [1]"
    "filled_runs (map (\<lambda>row. the (row ! 1)) (grid example_diagonal_solved)) = [1]" by force+
  ultimately show ?thesis using c u g by simp
qed

section \<open>A clue that does not fit\<close>

lemma valid_unknown: "\<forall>m<length p. cell (k + m) = Inr None \<Longrightarrow> valid cell k p = Inr True"
proof (induction p arbitrary: k)
  case Nil
  then show ?case by simp
next
  case (Cons v p)
  from Cons.prems have "cell k = Inr None" by force
  moreover have "\<forall>m<length p. cell (Suc k + m) = Inr None" using Cons.prems by force
  then have "valid cell (Suc k) p = Inr True" by (rule Cons.IH)
  ultimately show ?case by simp
qed

lemma blank_row_filter:
  assumes "well_formed s" "blank s" "i < height s"
  shows "filter_domain (valid (\<lambda>j. grid_get (grid s) i j) 0) (row_domains s ! i) = Inr (row_domains s ! i)"
proof -
  have "valid (\<lambda>j. grid_get (grid s) i j) 0 p = Inr True" if "p \<in> row_domains s ! i" for p
  proof (rule valid_unknown)
    from well_formed_row_domain[OF assms(1,3)] that have "length p = width s" by simp
    with assms show "\<forall>m<length p. grid_get (grid s) i (0 + m) = Inr None"
      by (simp add: well_formed_cell blank_def)
  qed
  then show ?thesis by (auto simp: filter_domain_def)
qed

lemma blank_col_filter:
  assumes "well_formed s" "blank s" "j < width s"
  shows "filter_domain (valid (\<lambda>i. grid_get (grid s) i j) 0) (col_domains s ! j) = Inr (col_domains s ! j)"
proof -
  have "valid (\<lambda>i. grid_get (grid s) i j) 0 p = Inr True" if "p \<in> col_domains s ! j" for p
  proof (rule valid_unknown)
    from well_formed_col_domain[OF assms(1,3)] that have "length p = height s" by simp
    with assms show "\<forall>m<length p. grid_get (grid s) (0 + m) j = Inr None"
      by (simp add: well_formed_cell blank_def)
  qed
  then show ?thesis by (auto simp: filter_domain_def)
qed

lemma update_rows_blank:
  "well_formed s \<Longrightarrow> blank s \<Longrightarrow> \<forall>i\<in>set is. i < height s \<Longrightarrow>
   update_rows is c s =
     (if \<exists>i\<in>set is. row_domains s ! i = {} then Inr (Failed s) else Inr (Going c s))"
proof (induction "is")
  case Nil
  then show ?case by simp
next
  case (Cons k rest)
  from Cons.prems have k: "k < height s" by simp
  from well_formed_row_domain[OF Cons.prems(1) k]
  have D: "get (row_domains s) k = Inr (row_domains s ! k)" by simp
  from Cons have "update_rows rest c s =
     (if \<exists>i\<in>set rest. row_domains s ! i = {} then Inr (Failed s) else Inr (Going c s))" by simp
  with D blank_row_filter[OF Cons.prems(1,2) k] show ?case by simp
qed

lemma update_cols_blank:
  "well_formed s \<Longrightarrow> blank s \<Longrightarrow> \<forall>j\<in>set js. j < width s \<Longrightarrow>
   update_cols js c s =
     (if \<exists>j\<in>set js. col_domains s ! j = {} then Inr (Failed s) else Inr (Going c s))"
proof (induction js)
  case Nil
  then show ?case by simp
next
  case (Cons k rest)
  from Cons.prems have k: "k < width s" by simp
  from well_formed_col_domain[OF Cons.prems(1) k]
  have D: "get (col_domains s) k = Inr (col_domains s ! k)" by simp
  from Cons have "update_cols rest c s =
     (if \<exists>j\<in>set rest. col_domains s ! j = {} then Inr (Failed s) else Inr (Going c s))" by simp
  with D blank_col_filter[OF Cons.prems(1,2) k] show ?case by simp
qed

lemma sweep_blank_empty_domain:
  assumes w: "well_formed s" and b: "blank s"
    and e: "(\<exists>i<height s. row_domains s ! i = {}) \<or> (\<exists>j<width s. col_domains s ! j = {})"
  shows "sweep s = Inr (Failed s)"
proof (cases "\<exists>i<height s. row_domains s ! i = {}")
  case True
  then have "update_rows [0..<height s] False s = Inr (Failed s)"
    using update_rows_blank[OF w b, of "[0..<height s]" False] by auto
  then show ?thesis by (simp add: sweep_def)
next
  case False
  then have r: "update_rows [0..<height s] False s = Inr (Going False s)"
    using update_rows_blank[OF w b, of "[0..<height s]" False] by auto
  from False e have "\<exists>j<width s. col_domains s ! j = {}" by blast
  then have "update_cols [0..<width s] False s = Inr (Failed s)"
    using update_cols_blank[OF w b, of "[0..<width s]" False] by auto
  with r show ?thesis by (simp add: sweep_def)
qed

lemma solve_blank_empty_domain:
  assumes "well_formed s" "blank s"
    "(\<exists>i<height s. row_domains s ! i = {}) \<or> (\<exists>j<width s. col_domains s ! j = {})"
  shows "solve (Suc depth) s = Inr (False, s)"
proof -
  from sweep_blank_empty_domain[OF assms] have "update_domains s = Inr (False, s)"
    by (subst update_domains.simps) simp
  then show ?thesis by simp
qed

lemma generate_too_long:
  "int len < sum_list blocks + int (length blocks) - 1 \<Longrightarrow>
   generate_line_possibilities blocks len = Inr []"
  by (auto simp: generate_line_possibilities_def Let_def)

lemma Nono_Solver_blank: "Nono_Solver rows cols = Inr s \<Longrightarrow> blank s"
  by (drule Nono_Solver_state) (simp add: blank_def)

lemma Nono_Solver_row_domain:
  "Nono_Solver rows cols = Inr s \<Longrightarrow> i < length rows \<Longrightarrow>
   \<exists>ls. generate_line_possibilities (rows ! i) (length cols) = Inr ls \<and> row_domains s ! i = set ls"
  using generate_domains_nth[of rows "length cols" "row_domains s"] Nono_Solver_state[of rows cols s]
  by simp

lemma Nono_Solver_col_domain:
  "Nono_Solver rows cols = Inr s \<Longrightarrow> j < length cols \<Longrightarrow>
   \<exists>ls. generate_line_possibilities (cols ! j) (length rows) = Inr ls \<and> col_domains s ! j = set ls"
  using generate_domains_nth[of cols "length rows" "col_domains s"] Nono_Solver_state[of rows cols s]
  by simp

text \<open>
  C6. In a puzzle the constructor has built, a row or column whose clue needs more
  cells than the line has (\<open>sum(blocks) + len(blocks) - 1 > length\<close>) gets the empty
  list from the generator and so the empty domain, and \<open>solve\<close> returns \<open>False\<close> from
  its first propagation, leaving the state as constructed.
\<close>

theorem solve_rejects_too_long_clue:
  "Nono_Solver rows cols = Inr s \<Longrightarrow>
   (i < length rows \<and> int (length cols) < sum_list (rows ! i) + int (length (rows ! i)) - 1)
   \<or> (j < length cols \<and> int (length rows) < sum_list (cols ! j) + int (length (cols ! j)) - 1) \<Longrightarrow>
   solve (Suc depth) s = Inr (False, s)
   \<and> (i < length rows \<and> int (length cols) < sum_list (rows ! i) + int (length (rows ! i)) - 1 \<longrightarrow>
        generate_line_possibilities (rows ! i) (length cols) = Inr [] \<and> row_domains s ! i = {})
   \<and> (j < length cols \<and> int (length rows) < sum_list (cols ! j) + int (length (cols ! j)) - 1 \<longrightarrow>
        generate_line_possibilities (cols ! j) (length rows) = Inr [] \<and> col_domains s ! j = {})"
proof -
  assume c: "Nono_Solver rows cols = Inr s"
    and long: "(i < length rows \<and> int (length cols) < sum_list (rows ! i) + int (length (rows ! i)) - 1)
      \<or> (j < length cols \<and> int (length rows) < sum_list (cols ! j) + int (length (cols ! j)) - 1)"
  note st = Nono_Solver_state[OF c]
  have r: "generate_line_possibilities (rows ! i) (length cols) = Inr [] \<and> row_domains s ! i = {}"
    if "i < length rows" "int (length cols) < sum_list (rows ! i) + int (length (rows ! i)) - 1"
    using Nono_Solver_row_domain[OF c that(1)] generate_too_long[OF that(2)] by auto
  have k: "generate_line_possibilities (cols ! j) (length rows) = Inr [] \<and> col_domains s ! j = {}"
    if "j < length cols" "int (length rows) < sum_list (cols ! j) + int (length (cols ! j)) - 1"
    using Nono_Solver_col_domain[OF c that(1)] generate_too_long[OF that(2)] by auto
  from long r k st
  have "(\<exists>i<height s. row_domains s ! i = {}) \<or> (\<exists>j<width s. col_domains s ! j = {})"
    by auto
  from solve_blank_empty_domain[OF Nono_Solver_well_formed[OF c] Nono_Solver_blank[OF c] this]
  show ?thesis using r k by blast
qed

theorem solve_rejects_too_long_clue_witness:
  "Nono_Solver [[1], [1], [1]] [[4]] = Inr example_too_long \<and>
   solve 1 example_too_long = Inr (False, example_too_long) \<and>
   generate_line_possibilities [4] 3 = Inr [] \<and> col_domains example_too_long ! 0 = {}"
proof -
  have c: "Nono_Solver [[1], [1], [1]] [[4]] = Inr example_too_long" by code_simp
  have l: "(0 < length [[1], [1], [1::int]] \<and>
            int (length [[4::int]]) < sum_list ([[1], [1], [1]] ! 0) + int (length ([[1], [1], [1::int]] ! 0)) - 1)
      \<or> (0 < length [[4::int]] \<and>
            int (length [[1], [1], [1::int]]) < sum_list ([[4]] ! 0) + int (length ([[4::int]] ! 0)) - 1)"
    by simp
  note t = solve_rejects_too_long_clue[OF c l, of 0]
  from t have 1: "solve 1 example_too_long = Inr (False, example_too_long)"
    by (simp del: solve.simps)
  from t have 2: "generate_line_possibilities [4] 3 = Inr [] \<and> col_domains example_too_long ! 0 = {}"
    by (simp del: solve.simps add: numeral_3_eq_3)
  from c 1 2 show ?thesis by (simp del: solve.simps)
qed

section \<open>An unknown cell with no common value\<close>

lemma select_cell_bound:
  "select_cell cells best s = Inr (Some (n, p, v)) \<Longrightarrow>
   \<forall>n' p' v'. best = Some (n', p', v') \<longrightarrow> n' = card v' \<Longrightarrow>
   n = card v \<and> (\<forall>n' p' v'. best = Some (n', p', v') \<longrightarrow> n \<le> n') \<and>
   (\<forall>(i, j)\<in>set cells. \<forall>C. grid_get (grid s) i j = Inr None \<longrightarrow>
        common_values s i j = Inr C \<longrightarrow> n \<le> card C)"
proof (induction cells best s rule: select_cell.induct)
  case (1 best s)
  then show ?case by auto
next
  case (2 i j rest best s)
  from "2.prems"(1) obtain c where c: "grid_get (grid s) i j = Inr c"
    by (auto split: sum.splits)
  show ?case
  proof (cases "c = None")
    case False
    with c "2.prems" have "select_cell rest best s = Inr (Some (n, p, v))" by simp
    from "2.IH"(3)[OF c False this "2.prems"(2)] c False show ?thesis by auto
  next
    case True
    with c "2.prems"(1) obtain common where cm: "common_values s i j = Inr common"
      by (auto split: sum.splits)
    show ?thesis
    proof (cases "case best of None \<Rightarrow> True | Some (min_options, _) \<Rightarrow> card common < min_options")
      case t: True
      with True c cm "2.prems"(1)
      have r: "select_cell rest (Some (card common, (i, j), common)) s = Inr (Some (n, p, v))"
        by simp
      have "\<forall>n' p' v'. Some (card common, (i, j), common) = Some (n', p', v') \<longrightarrow> n' = card v'"
        by simp
      note ih = "2.IH"(1)[OF c True cm t r this]
      from ih have 1: "n = card v" by blast
      from ih have 2: "n \<le> card common" by blast
      from ih have 3: "\<forall>(i, j)\<in>set rest. \<forall>C. grid_get (grid s) i j = Inr None \<longrightarrow>
                  common_values s i j = Inr C \<longrightarrow> n \<le> card C" by blast
      from t 2 have "\<forall>n' p' v'. best = Some (n', p', v') \<longrightarrow> n \<le> n'" by auto
      with 1 2 3 cm show ?thesis by auto
    next
      case f: False
      with True c cm "2.prems"(1) have r: "select_cell rest best s = Inr (Some (n, p, v))" by simp
      note ih = "2.IH"(2)[OF c True cm f r "2.prems"(2)]
      from ih have 1: "n = card v" by blast
      from ih have 2: "\<forall>n' p' v'. best = Some (n', p', v') \<longrightarrow> n \<le> n'" by blast
      from ih have 3: "\<forall>(i, j)\<in>set rest. \<forall>C. grid_get (grid s) i j = Inr None \<longrightarrow>
                  common_values s i j = Inr C \<longrightarrow> n \<le> card C" by blast
      from f obtain n0 p0 v0 where b: "best = Some (n0, p0, v0)" and "\<not> card common < n0"
        by (auto split: option.splits)
      with 2 have "n \<le> card common" by force
      with 1 2 3 cm show ?thesis by auto
    qed
  qed
qed

lemma select_cell_total:
  "well_formed s \<Longrightarrow> \<forall>(i, j)\<in>set cells. i < height s \<and> j < width s \<Longrightarrow>
   \<exists>r. select_cell cells best s = Inr r"
proof (induction cells best s rule: select_cell.induct)
  case (1 best s)
  then show ?case by simp
next
  case (2 i j rest best s)
  from "2.prems" have ij: "i < height s" "j < width s" by simp_all
  note cell = well_formed_cell[OF "2.prems"(1) ij]
  note cm = common_values_total[OF "2.prems"(1) ij]
  from "2.prems" have rest: "\<forall>(i, j)\<in>set rest. i < height s \<and> j < width s" by simp
  show ?case
  proof (cases "grid s ! i ! j = None")
    case False
    with cell "2.IH"(3)[OF cell _ "2.prems"(1) rest] show ?thesis by auto
  next
    case True
    show ?thesis
      using True cell cm "2.IH"(1)[OF cell True cm _ "2.prems"(1) rest]
        "2.IH"(2)[OF cell True cm _ "2.prems"(1) rest]
      by (cases "case best of None \<Rightarrow> True | Some (min_options, _) \<Rightarrow>
            card ((\<lambda>p. p ! j) ` (row_domains s ! i) \<inter> (\<lambda>p. p ! i) ` (col_domains s ! j)) < min_options")
        simp_all
  qed
qed

lemma solve_empty_intersection:
  assumes w: "well_formed s" and u: "update_domains s = Inr (True, s1)"
    and i: "i < height s1" and j: "j < width s1"
    and c: "grid s1 ! i ! j = None" and e: "common_values s1 i j = Inr {}"
  shows "solve (Suc depth) s = Inr (False, s1)"
proof -
  let ?cells = "List.product [0..<height s1] [0..<width s1]"
  from update_domains_well_formed[OF u w] have w1: "well_formed s1" .
  from select_cell_total[OF w1, of ?cells None] obtain r where r: "select_cell ?cells None s1 = Inr r"
    by auto
  from well_formed_cell[OF w1 i j] c have g: "grid_get (grid s1) i j = Inr None" by simp
  have mem: "(i, j) \<in> set ?cells" using i j by simp
  have "r \<noteq> None"
  proof
    assume "r = None"
    with r have "select_cell ?cells None s1 = Inr None" by simp
    from select_cell_None[OF this] mem have "\<exists>v. grid_get (grid s1) i j = Inr (Some v)" by blast
    with g show False by simp
  qed
  then obtain n p v where rv: "r = Some (n, p, v)" by (cases r) auto
  from r rv have "select_cell ?cells None s1 = Inr (Some (n, p, v))" by simp
  from select_cell_bound[OF this] have nv: "n = card v"
    and bound: "\<forall>(i, j)\<in>set ?cells. \<forall>C. grid_get (grid s1) i j = Inr None \<longrightarrow>
                  common_values s1 i j = Inr C \<longrightarrow> n \<le> card C"
    by blast+
  from bound mem g e have "n \<le> card ({}::int set)" by blast
  with nv have "card v = 0" by simp
  then have "sorted_list_of_set v = []" by (cases "finite v") auto
  with u r rv show ?thesis by (cases p) simp
qed

lemma common_values_grid: "common_values (s\<lparr>grid := g\<rparr>) i j = common_values s i j"
  by (auto simp: common_values_def split: sum.splits)

lemma grid_set_other:
  "(i', j') \<noteq> (i, j) \<Longrightarrow> grid_set g i' j' v ! i ! j = g ! i ! j"
proof (cases "i' = i")
  case False
  then show ?thesis by (simp add: grid_set_def)
next
  case True
  assume "(i', j') \<noteq> (i, j)"
  with True have j: "j' \<noteq> j" by simp
  show ?thesis
  proof (cases "i < length g")
    case True
    with \<open>i' = i\<close> j show ?thesis by (simp add: grid_set_def)
  next
    case False
    with \<open>i' = i\<close> show ?thesis by (simp add: grid_set_def list_update_beyond not_less)
  qed
qed

lemma grid_set_shape:
  "length (grid_set g i' j' v) = length g \<and> length (grid_set g i' j' v ! i) = length (g ! i)"
  by (cases "i' < length g"; cases "i' = i") (simp_all add: grid_set_def list_update_beyond not_less)

lemma card_1_Min: "card (C::int set) = 1 \<Longrightarrow> C = {Min C}"
  by (erule card_1_singletonE) simp

lemma infer_cells_fixes:
  "infer_cells cells c s = Inr (c', s') \<Longrightarrow> i < length (grid s) \<Longrightarrow> j < length (grid s ! i) \<Longrightarrow>
   grid s ! i ! j = None \<Longrightarrow> grid s' ! i ! j \<noteq> None \<Longrightarrow>
   (i, j) \<in> set cells \<and> (\<exists>v. common_values s i j = Inr {v} \<and> grid s' ! i ! j = Some v)"
proof (induction cells c s rule: infer_cells.induct)
  case (1 changed s)
  then show ?case by simp
next
  case (2 i' j' rest changed s)
  from "2.prems"(1) obtain cv where cv: "grid_get (grid s) i' j' = Inr cv"
    by (auto split: sum.splits)
  show ?case
  proof (cases "cv = None")
    case False
    with cv "2.prems"(1) have r: "infer_cells rest changed s = Inr (c', s')" by simp
    from "2.IH"(3)[OF cv False r "2.prems"(2-5)] show ?thesis by simp
  next
    case True
    with cv "2.prems"(1) obtain common where cm: "common_values s i' j' = Inr common"
      by (auto split: sum.splits)
    show ?thesis
    proof (cases "card common = 1")
      case False
      with True cv cm "2.prems"(1) have r: "infer_cells rest changed s = Inr (c', s')" by simp
      from "2.IH"(2)[OF cv True cm False r "2.prems"(2-5)] show ?thesis by simp
    next
      case c1: True
      let ?t = "s\<lparr>grid := grid_set (grid s) i' j' (Some (Min common))\<rparr>"
      from True cv cm c1 "2.prems"(1) have r: "infer_cells rest True ?t = Inr (c', s')" by simp
      show ?thesis
      proof (cases "(i', j') = (i, j)")
        case same: True
        from cv same have "grid ?t ! i ! j = Some (Min common)"
          by (simp add: grid_set_def grid_get_Inr)
        moreover from infer_cells_advances[OF r] have "refined (grid ?t) (grid s')"
          by (simp add: advances_def)
        moreover have "i < length (grid ?t)" "j < length (grid ?t ! i)"
          using "2.prems"(2,3) grid_set_shape[of "grid s" i' j' "Some (Min common)" i] by simp_all
        ultimately have "grid s' ! i ! j = Some (Min common)"
          unfolding refined_def by (metis option.distinct(1))
        moreover from cm same card_1_Min[OF c1] have "common_values s i j = Inr {Min common}"
          by simp
        ultimately show ?thesis using same by simp
      next
        case other: False
        have g: "grid ?t ! i ! j = None" using "2.prems"(4) grid_set_other[OF other] by simp
        have sh: "i < length (grid ?t)" "j < length (grid ?t ! i)"
          using "2.prems"(2,3) grid_set_shape[of "grid s" i' j' "Some (Min common)" i] by simp_all
        from "2.IH"(1)[OF cv True cm c1 r sh g "2.prems"(5)] show ?thesis
          by (simp add: common_values_grid)
      qed
    qed
  qed
qed

lemma update_rows_grid: "update_rows is c s = Inr f \<Longrightarrow> grid (flow_state f) = grid s"
proof (induction "is" arbitrary: c s)
  case Nil
  then show ?case by auto
next
  case (Cons k rest)
  then show ?case by (fastforce split: sum.splits if_splits)
qed

lemma update_cols_grid: "update_cols js c s = Inr f \<Longrightarrow> grid (flow_state f) = grid s"
proof (induction js arbitrary: c s)
  case Nil
  then show ?case by auto
next
  case (Cons k rest)
  then show ?case by (fastforce split: sum.splits if_splits)
qed

lemma common_values_narrowed:
  assumes w: "well_formed s" and n: "narrowed s s'" and w': "well_formed s'"
    and i: "i < height s" and j: "j < width s" and e: "common_values s i j = Inr {}"
  shows "common_values s' i j = Inr {}"
proof -
  from n i j have i': "i < height s'" and j': "j < width s'" by (simp_all add: narrowed_def)
  from w i j have "i < length (row_domains s)" "j < length (col_domains s)"
    by (simp_all add: well_formed_def)
  with n have sub: "row_domains s' ! i \<subseteq> row_domains s ! i" "col_domains s' ! j \<subseteq> col_domains s ! j"
    by (simp_all add: narrowed_def)
  from e common_values_total[OF w i j]
  have "(\<lambda>p. p ! j) ` (row_domains s ! i) \<inter> (\<lambda>p. p ! i) ` (col_domains s ! j) = {}" by simp
  with sub have "(\<lambda>p. p ! j) ` (row_domains s' ! i) \<inter> (\<lambda>p. p ! i) ` (col_domains s' ! j) = {}"
    by blast
  with common_values_total[OF w' i' j'] show ?thesis by simp
qed

lemma common_values_advances:
  "well_formed s \<Longrightarrow> advances s s' \<Longrightarrow> i < height s \<Longrightarrow> j < width s \<Longrightarrow>
   common_values s i j = Inr {} \<Longrightarrow> common_values s' i j = Inr {}"
  using common_values_narrowed[of s s' i j] well_formed_advances[of s s']
  by (simp add: advances_def)

lemma sweep_keeps_empty_intersection:
  assumes w: "well_formed s" and sw: "sweep s = Inr f"
    and i: "i < height s" and j: "j < width s"
    and g: "grid s ! i ! j = None" and e: "common_values s i j = Inr {}"
  shows "grid (flow_state f) ! i ! j = None \<and> common_values (flow_state f) i j = Inr {}"
proof -
  from sweep_advances[OF sw] have a: "advances s (flow_state f)" .
  from common_values_advances[OF w a i j e] have e': "common_values (flow_state f) i j = Inr {}" .
  from sw have "grid (flow_state f) ! i ! j = None"
  proof (cases rule: sweep_cases)
    case (rows s1)
    with update_rows_grid[OF rows(1)] g show ?thesis by simp
  next
    case (cols c1 s1 s2)
    with update_rows_grid[OF cols(1)] update_cols_grid[OF cols(2)] g show ?thesis by simp
  next
    case (cells c1 s1 c2 s2 c3 s3)
    from update_rows_grid[OF cells(1)] update_cols_grid[OF cells(2)]
    have g2: "grid s2 = grid s" by simp
    from update_rows_advances[OF cells(1)] update_cols_advances[OF cells(2)]
    have a2: "advances s s2" by (auto intro: advances_trans)
    from common_values_advances[OF w a2 i j e] have e2: "common_values s2 i j = Inr {}" .
    from w i j have sh: "i < length (grid s2)" "j < length (grid s2 ! i)"
      unfolding g2 by (auto simp: well_formed_def)
    have "grid s3 ! i ! j = None"
    proof (rule ccontr)
      assume "grid s3 ! i ! j \<noteq> None"
      from infer_cells_fixes[OF cells(3) sh _ this] g g2 e2 show False by simp
    qed
    with cells(4) show ?thesis by simp
  qed
  with e' show ?thesis by simp
qed

lemma update_domains_keeps_empty_intersection:
  "update_domains s = Inr (b, s') \<Longrightarrow> well_formed s \<Longrightarrow> i < height s \<Longrightarrow> j < width s \<Longrightarrow>
   grid s ! i ! j = None \<Longrightarrow> common_values s i j = Inr {} \<Longrightarrow>
   grid s' ! i ! j = None \<and> common_values s' i j = Inr {}"
proof (induction s rule: update_domains.induct)
  case (1 s)
  from "1.prems"(1) obtain f where f: "sweep s = Inr f"
    by (subst (asm) update_domains.simps) (auto split: sum.splits)
  note k = sweep_keeps_empty_intersection[OF "1.prems"(2) f "1.prems"(3-6)]
  from sweep_advances[OF f] have a: "advances s (flow_state f)" .
  show ?case
  proof (cases f)
    case (Failed s1)
    with f "1.prems"(1) k show ?thesis by (subst (asm) update_domains.simps) auto
  next
    case (Going c s1)
    show ?thesis
    proof (cases c)
      case False
      with Going f "1.prems"(1) k show ?thesis by (subst (asm) update_domains.simps) auto
    next
      case True
      with Going f "1.prems"(1) have u: "update_domains s1 = Inr (b, s')"
        by (subst (asm) update_domains.simps) auto
      from a Going "1.prems"(2) have w1: "well_formed s1" by (auto intro: well_formed_advances)
      from a Going have "height s1 = height s" "width s1 = width s"
        by (simp_all add: advances_def narrowed_def)
      with "1.IH"[OF f Going True u w1] k Going "1.prems"(3,4) show ?thesis by simp
    qed
  qed
qed

lemma update_rows_Failed:
  "update_rows is c s = Inr (Failed s') \<Longrightarrow>
   \<exists>i\<in>set is. i < length (row_domains s') \<and>
     filter_domain (valid (\<lambda>j. grid_get (grid s') i j) 0) (row_domains s' ! i) = Inr {}"
proof (induction "is" arbitrary: c s)
  case Nil
  then show ?case by simp
next
  case (Cons k rest)
  from Cons.prems obtain D N where D: "get (row_domains s) k = Inr D"
    and N: "filter_domain (valid (\<lambda>j. grid_get (grid s) k j) 0) D = Inr N"
    by (auto split: sum.splits)
  show ?case
  proof (cases "N = {}")
    case True
    with Cons.prems D N have "s' = s" by simp
    with D N True show ?thesis by (auto simp: get_Inr)
  next
    case False
    with Cons.prems D N have "update_rows rest (if N \<noteq> D then True else c)
        (if N \<noteq> D then s\<lparr>row_domains := (row_domains s)[k := N]\<rparr> else s) = Inr (Failed s')"
      by (simp split: if_splits)
    from Cons.IH[OF this] show ?thesis by auto
  qed
qed

lemma update_cols_Failed:
  "update_cols js c s = Inr (Failed s') \<Longrightarrow>
   \<exists>j\<in>set js. j < length (col_domains s') \<and>
     filter_domain (valid (\<lambda>i. grid_get (grid s') i j) 0) (col_domains s' ! j) = Inr {}"
proof (induction js arbitrary: c s)
  case Nil
  then show ?case by simp
next
  case (Cons k rest)
  from Cons.prems obtain D N where D: "get (col_domains s) k = Inr D"
    and N: "filter_domain (valid (\<lambda>i. grid_get (grid s) i k) 0) D = Inr N"
    by (auto split: sum.splits)
  show ?case
  proof (cases "N = {}")
    case True
    with Cons.prems D N have "s' = s" by simp
    with D N True show ?thesis by (auto simp: get_Inr)
  next
    case False
    with Cons.prems D N have "update_cols rest (if N \<noteq> D then True else c)
        (if N \<noteq> D then s\<lparr>col_domains := (col_domains s)[k := N]\<rparr> else s) = Inr (Failed s')"
      by (simp split: if_splits)
    from Cons.IH[OF this] show ?thesis by auto
  qed
qed

lemma sweep_Failed:
  assumes "sweep s = Inr (Failed s')"
  shows "(\<exists>i<height s'. filter_domain (valid (\<lambda>j. grid_get (grid s') i j) 0) (row_domains s' ! i) = Inr {})
       \<or> (\<exists>j<width s'. filter_domain (valid (\<lambda>i. grid_get (grid s') i j) 0) (col_domains s' ! j) = Inr {})"
  using assms
proof (cases rule: sweep_cases)
  case (rows s1)
  from update_rows_advances[OF rows(1)] have "height s1 = height s"
    by (simp add: advances_def narrowed_def)
  with update_rows_Failed[OF rows(1)] rows(2) show ?thesis by auto
next
  case (cols c1 s1 s2)
  from update_cols_advances[OF cols(2)] have "width s2 = width s1"
    by (simp add: advances_def narrowed_def)
  with update_cols_Failed[OF cols(2)] cols(3) show ?thesis by auto
next
  case (cells c1 s1 c2 s2 c3 s3)
  then show ?thesis by simp
qed

lemma update_domains_False:
  "update_domains s = Inr (False, s') \<Longrightarrow>
   (\<exists>i<height s'. filter_domain (valid (\<lambda>j. grid_get (grid s') i j) 0) (row_domains s' ! i) = Inr {})
   \<or> (\<exists>j<width s'. filter_domain (valid (\<lambda>i. grid_get (grid s') i j) 0) (col_domains s' ! j) = Inr {})"
proof (induction s rule: update_domains.induct)
  case (1 s)
  from "1.prems" obtain f where f: "sweep s = Inr f"
    by (subst (asm) update_domains.simps) (auto split: sum.splits)
  show ?case
  proof (cases f)
    case (Failed s1)
    with f "1.prems" have "s1 = s'" by (subst (asm) update_domains.simps) simp
    with f Failed show ?thesis by (intro sweep_Failed) simp
  next
    case (Going c s1)
    with f "1.prems" have c: "c" and u: "update_domains s1 = Inr (False, s')"
      by (subst (asm) update_domains.simps, auto split: if_splits)+
    from "1.IH"[OF f Going c u] show ?thesis .
  qed
qed


lemma infer_cells_forces:
  "infer_cells cells c s = Inr (c', s') \<Longrightarrow> i < length (grid s) \<Longrightarrow> j < length (grid s ! i) \<Longrightarrow>
   grid s ! i ! j = None \<Longrightarrow> (i, j) \<in> set cells \<Longrightarrow> common_values s i j = Inr {v} \<Longrightarrow>
   grid s' ! i ! j = Some v"
proof (induction cells c s rule: infer_cells.induct)
  case (1 changed s)
  then show ?case by simp
next
  case (2 i' j' rest changed s)
  from "2.prems"(1) obtain cv where cv: "grid_get (grid s) i' j' = Inr cv"
    by (auto split: sum.splits)
  have head: "(i', j') = (i, j) \<Longrightarrow> cv = None \<and> common_values s i' j' = Inr {v}"
    using cv "2.prems"(4,6) by (auto simp: grid_get_Inr)
  show ?case
  proof (cases "cv = None")
    case False
    with cv "2.prems"(1) have r: "infer_cells rest changed s = Inr (c', s')" by simp
    from False head "2.prems"(5) have "(i, j) \<in> set rest" by auto
    from "2.IH"(3)[OF cv False r "2.prems"(2-4) this "2.prems"(6)] show ?thesis .
  next
    case True
    with cv "2.prems"(1) obtain common where cm: "common_values s i' j' = Inr common"
      by (auto split: sum.splits)
    show ?thesis
    proof (cases "card common = 1")
      case False
      with True cv cm "2.prems"(1) have r: "infer_cells rest changed s = Inr (c', s')" by simp
      from False head cm "2.prems"(5) have "(i, j) \<in> set rest" by auto
      from "2.IH"(2)[OF cv True cm False r "2.prems"(2-4) this "2.prems"(6)] show ?thesis .
    next
      case c1: True
      let ?t = "s\<lparr>grid := grid_set (grid s) i' j' (Some (Min common))\<rparr>"
      from True cv cm c1 "2.prems"(1) have r: "infer_cells rest True ?t = Inr (c', s')" by simp
      have sh: "i < length (grid ?t)" "j < length (grid ?t ! i)"
        using "2.prems"(2,3) grid_set_shape[of "grid s" i' j' "Some (Min common)" i] by simp_all
      show ?thesis
      proof (cases "(i', j') = (i, j)")
        case same: True
        with head cm have "common = {v}" by simp
        with cv same have "grid ?t ! i ! j = Some v"
          by (simp add: grid_set_def grid_get_Inr)
        moreover from infer_cells_advances[OF r] have "refined (grid ?t) (grid s')"
          by (simp add: advances_def)
        ultimately show ?thesis using sh
          unfolding refined_def by (metis option.distinct(1))
      next
        case other: False
        have g: "grid ?t ! i ! j = None" using "2.prems"(4) grid_set_other[OF other] by simp
        from other "2.prems"(5) have m: "(i, j) \<in> set rest" by auto
        have e: "common_values ?t i j = Inr {v}" using "2.prems"(6) by (simp add: common_values_grid)
        from "2.IH"(1)[OF cv True cm c1 r sh g m e] show ?thesis .
      qed
    qed
  qed
qed

text \<open>
  C4, as the code has it. Forced-cell inference fixes an unknown cell exactly when the
  intersection of its row's and its column's value sets has one value, and then to
  that value; a cell whose intersection is empty is passed over, by the inference
  loop and by the whole of \<open>_update_domains\<close>, and its intersection stays empty.
  \<open>_update_domains\<close> returns \<open>False\<close> only when a row or column filter leaves an empty
  domain, so it can return \<open>True\<close> with such a cell in the grid. The contradiction is
  reported by \<open>solve\<close>: after a propagation that returned \<open>True\<close>, if some unknown cell
  has an empty intersection then \<open>solve\<close> returns \<open>False\<close> without trying a value,
  leaving the propagated state.
\<close>

theorem empty_intersection_fails_solve:
  "well_formed s \<Longrightarrow> i < height s \<Longrightarrow> j < width s \<Longrightarrow>
   (\<forall>cells c c' s'. infer_cells cells c s = Inr (c', s') \<longrightarrow> grid s ! i ! j = None \<longrightarrow>
      (grid s' ! i ! j \<noteq> None \<longrightarrow>
         (i, j) \<in> set cells \<and> (\<exists>v. common_values s i j = Inr {v} \<and> grid s' ! i ! j = Some v)) \<and>
      (\<forall>v. (i, j) \<in> set cells \<longrightarrow> common_values s i j = Inr {v} \<longrightarrow> grid s' ! i ! j = Some v) \<and>
      (common_values s i j = Inr {} \<longrightarrow> grid s' ! i ! j = None))
   \<and> (\<forall>b s'. update_domains s = Inr (b, s') \<longrightarrow> grid s ! i ! j = None \<longrightarrow>
         common_values s i j = Inr {} \<longrightarrow>
         grid s' ! i ! j = None \<and> common_values s' i j = Inr {})
   \<and> (\<forall>s'. update_domains s = Inr (False, s') \<longrightarrow>
         (\<exists>k<height s'. filter_domain (valid (\<lambda>m. grid_get (grid s') k m) 0) (row_domains s' ! k) = Inr {})
         \<or> (\<exists>k<width s'. filter_domain (valid (\<lambda>m. grid_get (grid s') m k) 0) (col_domains s' ! k) = Inr {}))
   \<and> (\<forall>s1 depth. update_domains s = Inr (True, s1) \<longrightarrow> grid s1 ! i ! j = None \<longrightarrow>
         common_values s1 i j = Inr {} \<longrightarrow> solve (Suc depth) s = Inr (False, s1))"
proof -
  assume w: "well_formed s" and i: "i < height s" and j: "j < width s"
  from w i j have sh: "i < length (grid s)" "j < length (grid s ! i)"
    by (auto simp: well_formed_def)
  have A: "(grid s' ! i ! j \<noteq> None \<longrightarrow>
         (i, j) \<in> set cells \<and> (\<exists>v. common_values s i j = Inr {v} \<and> grid s' ! i ! j = Some v)) \<and>
      (\<forall>v. (i, j) \<in> set cells \<longrightarrow> common_values s i j = Inr {v} \<longrightarrow> grid s' ! i ! j = Some v) \<and>
      (common_values s i j = Inr {} \<longrightarrow> grid s' ! i ! j = None)"
    if f: "infer_cells cells c s = Inr (c', s')" and g: "grid s ! i ! j = None" for cells c c' s'
  proof (intro conjI impI allI)
    assume "grid s' ! i ! j \<noteq> None"
    from infer_cells_fixes[OF f sh g this]
    show "(i, j) \<in> set cells" "\<exists>v. common_values s i j = Inr {v} \<and> grid s' ! i ! j = Some v"
      by simp_all
  next
    fix v assume "(i, j) \<in> set cells" "common_values s i j = Inr {v}"
    with infer_cells_forces[OF f sh g] show "grid s' ! i ! j = Some v" by simp
  next
    assume e: "common_values s i j = Inr {}"
    show "grid s' ! i ! j = None"
    proof (rule ccontr)
      assume "grid s' ! i ! j \<noteq> None"
      from infer_cells_fixes[OF f sh g this] e show False by simp
    qed
  qed
  have B: "grid s' ! i ! j = None \<and> common_values s' i j = Inr {}"
    if "update_domains s = Inr (b, s')" "grid s ! i ! j = None" "common_values s i j = Inr {}" for b s'
    using update_domains_keeps_empty_intersection[OF that(1) w i j that(2,3)] .
  have D: "solve (Suc depth) s = Inr (False, s1)"
    if u: "update_domains s = Inr (True, s1)" and "grid s1 ! i ! j = None" "common_values s1 i j = Inr {}"
    for s1 depth
  proof -
    from update_domains_narrowed[OF u] i j have "i < height s1" "j < width s1"
      by (simp_all add: narrowed_def)
    from solve_empty_intersection[OF w u this that(2,3)] show ?thesis .
  qed
  from A B D update_domains_False show ?thesis by blast
qed

theorem empty_intersection_fails_solve_witness:
  "Nono_Solver [[1], [1], [1]] [[1, 1]] = Inr example_gap \<and>
   grid example_gap ! 1 ! 0 = None \<and> common_values example_gap 1 0 = Inr {} \<and>
   infer_cells [(0, 0), (1, 0), (2, 0)] False example_gap
     = Inr (True, example_gap\<lparr>grid := [[Some 1], [None], [Some 1]]\<rparr>) \<and>
   update_domains example_gap = Inr (True, example_gap_propagated) \<and>
   grid example_gap_propagated ! 1 ! 0 = None \<and>
   common_values example_gap_propagated 1 0 = Inr {} \<and>
   solve 1 example_gap = Inr (False, example_gap_propagated)"
proof -
  have c: "Nono_Solver [[1], [1], [1]] [[1, 1]] = Inr example_gap" by code_simp
  have g0: "grid example_gap ! 1 ! 0 = None" by (simp add: example_gap_def)
  have e0: "common_values example_gap 1 0 = Inr {}" by code_simp
  have f: "infer_cells [(0, 0), (1, 0), (2, 0)] False example_gap
     = Inr (True, example_gap\<lparr>grid := [[Some 1], [None], [Some 1]]\<rparr>)" by code_simp
  have u: "update_domains example_gap = Inr (True, example_gap_propagated)" by code_simp
  have i: "1 < height example_gap" and j: "0 < width example_gap"
    by (simp_all add: example_gap_def)
  note t = empty_intersection_fails_solve[OF Nono_Solver_well_formed[OF c] i j]
  from t u g0 e0 have k: "grid example_gap_propagated ! 1 ! 0 = None \<and>
      common_values example_gap_propagated 1 0 = Inr {}" by blast
  with t u have "solve (Suc 0) example_gap = Inr (False, example_gap_propagated)" by blast
  with c g0 e0 f u k show ?thesis by (simp del: solve.simps)
qed

text \<open>
  C4 as stated fails: in the puzzle with rows \<open>[1], [1], [1]\<close> and the single column
  \<open>[1, 1]\<close>, the middle cell is unknown, its row allows only 1 and its column only 0,
  and \<open>_update_domains\<close> returns \<open>True\<close>.
\<close>

theorem empty_intersection_propagates_true:
  "Nono_Solver [[1], [1], [1]] [[1, 1]] = Inr example_gap \<and>
   update_domains example_gap = Inr (True, example_gap_propagated) \<and>
   grid example_gap_propagated ! 1 ! 0 = None \<and>
   values_at (row_domains example_gap_propagated ! 1) 0 = Inr {1} \<and>
   values_at (col_domains example_gap_propagated ! 0) 1 = Inr {0} \<and>
   common_values example_gap_propagated 1 0 = Inr {} \<and>
   sweep example_gap_propagated = Inr (Going False example_gap_propagated)"
  by code_simp

section \<open>The constructor returns for positive clues\<close>

lemma generate_domains_total:
  "\<forall>c\<in>set cs. \<forall>b\<in>set c. 0 < b \<Longrightarrow> \<exists>ds. generate_domains cs len = Inr ds"
proof (induction cs)
  case Nil
  then show ?case by simp
next
  case (Cons blocks rest)
  from Cons.prems have "\<forall>b\<in>set blocks. 0 < b" by simp
  from generate_line_possibilities_lines[OF this, of len] obtain ls
    where "generate_line_possibilities blocks len = Inr ls" by blast
  moreover from Cons obtain ds where "generate_domains rest len = Inr ds" by auto
  ultimately show ?case by simp
qed

lemma Nono_Solver_total:
  "\<forall>c\<in>set rows \<union> set cols. \<forall>b\<in>set c. 0 < b \<Longrightarrow> \<exists>s. Nono_Solver rows cols = Inr s"
proof -
  assume a: "\<forall>c\<in>set rows \<union> set cols. \<forall>b\<in>set c. 0 < b"
  then obtain rd where "generate_domains rows (length cols) = Inr rd"
    using generate_domains_total[of rows "length cols"] by auto
  moreover from a obtain cd where "generate_domains cols (length rows) = Inr cd"
    using generate_domains_total[of cols "length rows"] by auto
  ultimately show ?thesis by (simp add: Nono_Solver_def Let_def)
qed

section \<open>The depth of the search\<close>

text \<open>
  A result that \<open>solve\<close> returns at some depth it returns at every greater depth, and
  on a well-formed state it returns as soon as the depth exceeds the number of unknown
  cells: each nested call starts with one unknown cell fewer than its caller had.
\<close>

lemma try_values_deeper:
  assumes S: "\<And>t r. solve d t = Inr r \<Longrightarrow> solve (Suc d) t = Inr r"
  shows "try_values d i j vs s = Inr r \<Longrightarrow> try_values (Suc d) i j vs s = Inr r"
proof (induction vs arbitrary: s)
  case Nil
  then show ?case by simp
next
  case (Cons v rest)
  obtain b s' where r: "r = (b, s')" by (cases r)
  from Cons.prems[unfolded r] show ?case
  proof (cases rule: try_values_Cons_cases)
    case found
    from S[OF found(1)] found(2) r show ?thesis by (simp del: solve.simps)
  next
    case (retry s2)
    from S[OF retry(1)] Cons.IH[OF retry(2)[folded r]] show ?thesis by (simp del: solve.simps)
  qed
qed

lemma solve_deeper: "solve d s = Inr r \<Longrightarrow> solve (Suc d) s = Inr r"
proof (induction d arbitrary: s r)
  case 0
  then show ?case by simp
next
  case (Suc d)
  obtain b s' where r: "r = (b, s')" by (cases r)
  from Suc.prems[unfolded r] show ?case
  proof (cases rule: solve_Suc_cases)
    case contradiction
    with r show ?thesis by simp
  next
    case solved
    with r show ?thesis by simp
  next
    case (branch s1 n i j vals)
    from try_values_deeper[OF Suc.IH branch(3)] branch(1,2) r show ?thesis
      by (simp del: try_values.simps)
  qed
qed

lemma solve_deeper_add: "solve d s = Inr r \<Longrightarrow> solve (d + k) s = Inr r"
  by (induction k) (auto dest: solve_deeper simp del: solve.simps)

lemma unknown_count_refined:
  "length r' = length r \<Longrightarrow>
   \<forall>j<length r. r' ! j = r ! j \<or> (r ! j = None \<and> r' ! j \<noteq> None) \<Longrightarrow>
   length (filter (\<lambda>c. c = None) r') \<le> length (filter (\<lambda>c. c = None) r)"
proof (induction r' r rule: list_induct2)
  case Nil
  then show ?case by simp
next
  case (Cons c' r' c r)
  from Cons.prems have hd: "c' = c \<or> (c = None \<and> c' \<noteq> None)" by force
  from Cons.prems have "\<forall>j<length r. r' ! j = r ! j \<or> (r ! j = None \<and> r' ! j \<noteq> None)"
    by force
  from Cons.IH[OF this] hd show ?case by auto
qed

lemma refined_unknowns: "refined g g' \<Longrightarrow> unknowns g' \<le> unknowns g"
proof -
  assume r: "refined g g'"
  then have len: "length g' = length g" by (simp add: refined_def)
  from len r show ?thesis
  proof (induction g' g rule: list_induct2)
    case Nil
    then show ?case by (simp add: unknowns_def)
  next
    case (Cons r' g' r g)
    from Cons.prems have h: "length r' = length r"
      "\<forall>j<length r. r' ! j = r ! j \<or> (r ! j = None \<and> r' ! j \<noteq> None)"
      unfolding refined_def by force+
    have "refined g g'"
      unfolding refined_def
    proof (intro conjI allI impI)
      show "length g' = length g" by (rule Cons.hyps)
    next
      fix i assume i: "i < length g"
      with Cons.prems show "length (g' ! i) = length (g ! i)"
        unfolding refined_def by force
    next
      fix i j assume i: "i < length g" and j: "j < length (g ! i)"
      from Cons.prems have "\<forall>k<length (r # g). \<forall>j<length ((r # g) ! k).
          (r' # g') ! k ! j = (r # g) ! k ! j \<or> ((r # g) ! k ! j = None \<and> (r' # g') ! k ! j \<noteq> None)"
        unfolding refined_def by blast
      from this[rule_format, of "Suc i" j] i j
      show "g' ! i ! j = g ! i ! j \<or> (g ! i ! j = None \<and> g' ! i ! j \<noteq> None)" by simp
    qed
    from Cons.IH[OF this] unknown_count_refined[OF h] show ?case
      by (simp add: unknowns_def)
  qed
qed

lemma update_domains_unknowns:
  "update_domains s = Inr (b, s') \<Longrightarrow> unknowns (grid s') \<le> unknowns (grid s)"
  by (drule update_domains_advances) (simp add: advances_def refined_unknowns)

lemma unknown_count_update:
  "length (filter (\<lambda>c. c = None) (r[j := v])) \<le> Suc (length (filter (\<lambda>c. c = None) r))"
proof (induction r arbitrary: j)
  case Nil
  then show ?case by simp
next
  case (Cons c r)
  show ?case using Cons[of "j - 1"] by (cases j) auto
qed

lemma unknowns_grid_set_le: "unknowns (grid_set g i j v) \<le> Suc (unknowns g)"
proof (induction g arbitrary: i)
  case Nil
  then show ?case by (simp add: grid_set_def unknowns_def)
next
  case (Cons row g)
  show ?case
  proof (cases i)
    case 0
    with unknown_count_update[of row j v] show ?thesis
      by (simp add: grid_set_def unknowns_def)
  next
    case (Suc k)
    with Cons[of k] show ?thesis by (simp add: grid_set_def unknowns_def)
  qed
qed

lemma select_cell_Some:
  "select_cell cells best s = Inr (Some (n, (i, j), v)) \<Longrightarrow>
   best = Some (n, (i, j), v) \<or> ((i, j) \<in> set cells \<and> grid_get (grid s) i j = Inr None)"
proof (induction cells best s rule: select_cell.induct)
  case (1 best s)
  then show ?case by simp
next
  case (2 i' j' rest best s)
  from "2.prems" obtain c where c: "grid_get (grid s) i' j' = Inr c"
    by (auto split: sum.splits)
  show ?case
  proof (cases "c = None")
    case False
    with c "2.prems" have "select_cell rest best s = Inr (Some (n, (i, j), v))" by simp
    from "2.IH"(3)[OF c False this] show ?thesis by auto
  next
    case True
    with c "2.prems" obtain common where cm: "common_values s i' j' = Inr common"
      by (auto split: sum.splits)
    show ?thesis
    proof (cases "case best of None \<Rightarrow> True | Some (min_options, _) \<Rightarrow> card common < min_options")
      case t: True
      with True c cm "2.prems"
      have "select_cell rest (Some (card common, (i', j'), common)) s = Inr (Some (n, (i, j), v))"
        by simp
      from "2.IH"(1)[OF c True cm t this] c True show ?thesis by auto
    next
      case f: False
      with True c cm "2.prems" have "select_cell rest best s = Inr (Some (n, (i, j), v))" by simp
      from "2.IH"(2)[OF c True cm f this] show ?thesis by auto
    qed
  qed
qed

lemma try_values_returns:
  assumes S: "\<And>t. well_formed t \<Longrightarrow> unknowns (grid t) < d \<Longrightarrow>
                \<exists>b t'. solve d t = Inr (b, t') \<and> unknowns (grid t') \<le> unknowns (grid t)"
  shows "well_formed s \<Longrightarrow> i < height s \<Longrightarrow> j < width s \<Longrightarrow> grid s ! i ! j = None \<Longrightarrow>
         unknowns (grid s) \<le> d \<Longrightarrow>
         \<exists>b s'. try_values d i j vs s = Inr (b, s') \<and> unknowns (grid s') \<le> unknowns (grid s)"
proof (induction vs arbitrary: s)
  case Nil
  show ?case by (rule exI[of _ False], rule exI[of _ s]) simp
next
  case (Cons v rest)
  let ?t = "s\<lparr>grid := grid_set (grid s) i j (Some v)\<rparr>"
  from Cons.prems have in_range: "i < length (grid s)" "j < length (grid s ! i)"
    by (auto simp: well_formed_def)
  from unknowns_grid_set[OF in_range Cons.prems(4), of v]
  have ut: "Suc (unknowns (grid ?t)) = unknowns (grid s)" by simp
  have wt: "well_formed ?t" using Cons.prems(1) by (rule well_formed_grid_set)
  from S[OF wt] ut Cons.prems(5) obtain b t'
    where sv: "solve d ?t = Inr (b, t')" and ut': "unknowns (grid t') \<le> unknowns (grid ?t)"
    by force
  show ?case
  proof (cases b)
    case True
    with sv ut ut' show ?thesis by (auto simp del: solve.simps)
  next
    case False
    let ?u = "t'\<lparr>grid := grid_set (grid t') i j None\<rparr>"
    from solve_keeps[OF sv] wt have n: "narrowed ?t t'" and wt': "well_formed t'" by simp_all
    then have dims: "height t' = height s" "width t' = width s" by (simp_all add: narrowed_def)
    have wu: "well_formed ?u" using wt' by (rule well_formed_grid_set)
    from wt' dims Cons.prems(2,3) have "i < length (grid t')" "j < length (grid t' ! i)"
      by (auto simp: well_formed_def)
    then have cell: "grid ?u ! i ! j = None" by (simp add: grid_set_def)
    have uu: "unknowns (grid ?u) \<le> unknowns (grid s)"
      using unknowns_grid_set_le[of "grid t'" i j None] ut ut' by simp
    with Cons.prems(5) have "unknowns (grid ?u) \<le> d" by simp
    from Cons.IH[OF wu _ _ cell this] dims Cons.prems(2,3) obtain b' s'
      where "try_values d i j rest ?u = Inr (b', s')" "unknowns (grid s') \<le> unknowns (grid ?u)"
      by auto
    with sv False uu show ?thesis by (auto simp del: solve.simps)
  qed
qed

lemma solve_returns_bounded:
  "well_formed s \<Longrightarrow> unknowns (grid s) < d \<Longrightarrow>
   \<exists>b s'. solve d s = Inr (b, s') \<and> unknowns (grid s') \<le> unknowns (grid s)"
proof (induction d arbitrary: s)
  case 0
  then show ?case by simp
next
  case (Suc d)
  from update_domains_total[OF Suc.prems(1)] obtain b1 s1
    where u: "update_domains s = Inr (b1, s1)" by blast
  from update_domains_well_formed[OF u Suc.prems(1)] have w1: "well_formed s1" .
  from update_domains_unknowns[OF u] have u1: "unknowns (grid s1) \<le> unknowns (grid s)" .
  show ?case
  proof (cases b1)
    case False
    with u u1 show ?thesis by (intro exI[of _ False] exI[of _ s1]) simp
  next
    case True
    let ?cells = "List.product [0..<height s1] [0..<width s1]"
    from select_cell_total[OF w1, of ?cells None] obtain r
      where r: "select_cell ?cells None s1 = Inr r" by auto
    show ?thesis
    proof (cases r)
      case None
      with u True r u1 show ?thesis by (intro exI[of _ True] exI[of _ s1]) simp
    next
      case (Some x)
      then obtain n i j v where x: "r = Some (n, (i, j), v)" by (cases x) auto
      from select_cell_Some[of ?cells None s1 n i j v] r x
      have mem: "(i, j) \<in> set ?cells" and g: "grid_get (grid s1) i j = Inr None" by simp_all
      then have ij: "i < height s1" "j < width s1" and c: "grid s1 ! i ! j = None"
        by (simp_all add: grid_get_Inr)
      from u1 Suc.prems(2) have "unknowns (grid s1) \<le> d" by simp
      from try_values_returns[OF Suc.IH w1 ij c this, of "sorted_list_of_set v"] obtain b s'
        where "try_values d i j (sorted_list_of_set v) s1 = Inr (b, s')"
          "unknowns (grid s') \<le> unknowns (grid s1)" by blast
      with u True r x u1 show ?thesis by (auto simp del: try_values.simps)
    qed
  qed
qed

lemma solve_returns:
  "well_formed s \<Longrightarrow> unknowns (grid s) < d \<Longrightarrow> \<exists>b s'. solve d s = Inr (b, s')"
  using solve_returns_bounded by blast

section \<open>A puzzle the search gives up on\<close>

text \<open>
  C1 fails on the code. The puzzle with rows \<open>[1, 1], [2], [1]\<close> and columns
  \<open>[1], [1], [2], [1]\<close> has the solution \<open>1001 / 0110 / 0010\<close>, and \<open>solve\<close> returns
  \<open>False\<close> on it at every depth that lets it return at all (two nested calls or more).
\<close>

theorem solve_misses_solution:
  "Nono_Solver [[1, 1], [2], [1]] [[1], [1], [2], [1]] = Inr example_3x4
   \<and> map filled_runs [[1, 0, 0, 1], [0, 1, 1, 0], [0, 0, 1, 0]] = [[1, 1], [2], [1]]
   \<and> map filled_runs (transpose [[1, 0, 0, 1], [0, 1, 1, 0], [0, 0, 1, 0]]) = [[1], [1], [2], [1]]
   \<and> solve 1 example_3x4 = Inl RecursionError
   \<and> (\<forall>k. solve (2 + k) example_3x4 = Inr (False, example_3x4_failed))"
proof -
  have "Nono_Solver [[1, 1], [2], [1]] [[1], [1], [2], [1]] = Inr example_3x4
   \<and> map filled_runs [[1, 0, 0, 1], [0, 1, 1, 0], [0, 0, 1, 0]] = [[1, 1], [2], [1]]
   \<and> map filled_runs (transpose [[1, 0, 0, 1], [0, 1, 1, 0], [0, 0, 1, 0]]) = [[1], [1], [2], [1]]
   \<and> solve 1 example_3x4 = Inl RecursionError"
    by code_simp
  moreover have "solve 2 example_3x4 = Inr (False, example_3x4_failed)"
    by code_simp
  then have "\<forall>k. solve (2 + k) example_3x4 = Inr (False, example_3x4_failed)"
    by (blast intro: solve_deeper_add)
  ultimately show ?thesis by blast
qed

text \<open>
  C3 fails on the code. In the same puzzle the first propagation leaves cell (0, 0)
  to branch on. The branch with value 0 fails; afterwards only that cell is written
  back to \<open>None\<close>: row 0 keeps the one possibility that has 0 in the cell, and the
  cells that the failed branch fixed stay fixed. The branch with value 1 then starts
  from that state and fails in its first row filter.
\<close>

theorem failed_branch_not_restored:
  "update_domains example_3x4 = Inr (True, example_3x4_propagated)
   \<and> select_cell (List.product [0..<3] [0..<4]) None example_3x4_propagated
       = Inr (Some (2, (0, 0), {0, 1}))
   \<and> solve 11 (example_3x4_propagated\<lparr>grid := grid_set (grid example_3x4_propagated) 0 0 (Some 0)\<rparr>)
       = Inr (False, example_3x4_failed\<lparr>grid := grid_set (grid example_3x4_failed) 0 0 (Some 0)\<rparr>)
   \<and> update_domains (example_3x4_failed\<lparr>grid := grid_set (grid example_3x4_failed) 0 0 (Some 1)\<rparr>)
       = Inr (False, example_3x4_failed\<lparr>grid := grid_set (grid example_3x4_failed) 0 0 (Some 1)\<rparr>)
   \<and> try_values 11 0 0 [0, 1] example_3x4_propagated = Inr (False, example_3x4_failed)
   \<and> example_3x4_failed \<noteq> example_3x4_propagated
   \<and> row_domains example_3x4_propagated ! 0 = {[1, 0, 1, 0], [1, 0, 0, 1], [0, 1, 0, 1]}
   \<and> row_domains example_3x4_failed ! 0 = {[0, 1, 0, 1]}
   \<and> grid example_3x4_propagated ! 0 = [None, None, None, None]
   \<and> grid example_3x4_failed ! 0 = [None, Some 1, Some 0, Some 1]"
  by code_simp

end
